theory Spec2Isabelle
  imports Complex_Main "HOL-Library.AList" "HOL-Library.Multiset" "HOL-Library.Log_Nat"
begin

section \<open>JavaScript numbers\<close>

text \<open>
  Amounts, budgets and comparator results are JavaScript numbers: IEEE 754 doubles. A number
  is a finite value, one of the two infinities, or NaN; the finite values that occur are
  the rationals a double can hold, and the sign of zero is not tracked. \<open>+\<close> and \<open>-\<close>
  compute the exact sum and round it to the nearest double, ties to the even significand,
  with overflow to an infinity (\<open>rnd\<close>). \<open>Math.floor\<close>, \<open>Math.min\<close>, \<open>Math.max\<close> and
  the comparisons are exact on doubles. Every operation follows ECMAScript on the
  non-finite values: NaN is contagious in \<open>+\<close>, \<open>-\<close>, \<open>Math.min\<close>, \<open>Math.max\<close> and
  \<open>Math.floor\<close>, every ordering comparison with NaN is false, and \<open>NaN !== NaN\<close> is true.
\<close>

datatype jsnum = Fin rat | PInf | NInf | NaN

fun js_floor :: "jsnum \<Rightarrow> jsnum" where
  "js_floor (Fin q) = Fin (of_int \<lfloor>q\<rfloor>)"
| "js_floor PInf = PInf"
| "js_floor NInf = NInf"
| "js_floor NaN = NaN"

fun js_neg :: "jsnum \<Rightarrow> jsnum" where
  "js_neg (Fin q) = Fin (- q)"
| "js_neg PInf = NInf"
| "js_neg NInf = PInf"
| "js_neg NaN = NaN"

text \<open>
  Rounding to the nearest double. \<open>pow2 i\<close> is \<open>2^i\<close>; \<open>expo q\<close> is the binary exponent
  of a positive \<open>q\<close>, the \<open>e\<close> with \<open>2^e <= q < 2^(e+1)\<close>; \<open>roundEven\<close> rounds to the
  nearest integer, a tie to the even one. A double has a significand of 53 bits and an
  exponent between -1022 and 1023, so a magnitude \<open>a\<close> is rounded to a multiple of
  \<open>2^(e-52)\<close>, where \<open>e\<close> is its exponent or -1022 if that is larger (the subnormal
  numbers); a result of \<open>2^1024\<close> or more is an overflow.
\<close>

definition pow2 :: "int \<Rightarrow> rat" where
  "pow2 i = (if 0 \<le> i then 2 ^ nat i else 1 / 2 ^ nat (- i))"

definition expo :: "rat \<Rightarrow> int" where
  "expo q =
     (let e = bitlen (fst (quotient_of q)) - bitlen (snd (quotient_of q))
      in if pow2 e \<le> q then e else e - 1)"

definition roundEven :: "rat \<Rightarrow> int" where
  "roundEven x =
     (if x - of_int \<lfloor>x\<rfloor> < 1 / 2 then \<lfloor>x\<rfloor>
      else if 1 / 2 < x - of_int \<lfloor>x\<rfloor> then \<lfloor>x\<rfloor> + 1
      else if even \<lfloor>x\<rfloor> then \<lfloor>x\<rfloor> else \<lfloor>x\<rfloor> + 1)"

definition roundMag :: "rat \<Rightarrow> rat option" where
  "roundMag a =
     (let e = max (expo a) (- 1022);
          n = roundEven (a / pow2 (e - 52))
      in if 1024 \<le> e \<or> (e = 1023 \<and> n = 2 ^ 53) then None
         else Some (of_int n * pow2 (e - 52)))"

definition rnd :: "rat \<Rightarrow> jsnum" where
  "rnd q =
     (if q = 0 then Fin 0
      else if 0 < q then (case roundMag q of None \<Rightarrow> PInf | Some r \<Rightarrow> Fin r)
      else (case roundMag (- q) of None \<Rightarrow> NInf | Some r \<Rightarrow> Fin (- r)))"

text \<open>\<open>x + y\<close> and \<open>x - y\<close>.\<close>

fun js_add :: "jsnum \<Rightarrow> jsnum \<Rightarrow> jsnum" where
  "js_add (Fin a) (Fin b) = rnd (a + b)"
| "js_add (Fin a) PInf = PInf"
| "js_add (Fin a) NInf = NInf"
| "js_add PInf (Fin b) = PInf"
| "js_add PInf PInf = PInf"
| "js_add NInf (Fin b) = NInf"
| "js_add NInf NInf = NInf"
| "js_add PInf NInf = NaN"
| "js_add NInf PInf = NaN"
| "js_add NaN y = NaN"
| "js_add x NaN = NaN"

definition js_sub :: "jsnum \<Rightarrow> jsnum \<Rightarrow> jsnum" where
  "js_sub x y = js_add x (js_neg y)"

text \<open>\<open>x < y\<close> and \<open>x <= y\<close>.\<close>

fun js_lt :: "jsnum \<Rightarrow> jsnum \<Rightarrow> bool" where
  "js_lt (Fin a) (Fin b) = (a < b)"
| "js_lt (Fin a) PInf = True"
| "js_lt NInf (Fin b) = True"
| "js_lt NInf PInf = True"
| "js_lt x y = False"

fun js_le :: "jsnum \<Rightarrow> jsnum \<Rightarrow> bool" where
  "js_le (Fin a) (Fin b) = (a \<le> b)"
| "js_le NaN y = False"
| "js_le x NaN = False"
| "js_le PInf PInf = True"
| "js_le (Fin a) PInf = True"
| "js_le NInf y = True"
| "js_le PInf y = False"
| "js_le (Fin a) NInf = False"

text \<open>\<open>x !== y\<close> on numbers.\<close>

definition js_neq :: "jsnum \<Rightarrow> jsnum \<Rightarrow> bool" where
  "js_neq x y = (x = NaN \<or> y = NaN \<or> x \<noteq> y)"

text \<open>\<open>Math.max(x, y)\<close> and \<open>Math.min(x, y)\<close>.\<close>

definition js_max :: "jsnum \<Rightarrow> jsnum \<Rightarrow> jsnum" where
  "js_max x y = (if x = NaN \<or> y = NaN then NaN else if js_lt x y then y else x)"

definition js_min :: "jsnum \<Rightarrow> jsnum \<Rightarrow> jsnum" where
  "js_min x y = (if x = NaN \<or> y = NaN then NaN else if js_lt y x then y else x)"

text \<open>
  \<open>Array.prototype.sort(cmp)\<close>: a stable sort in which \<open>a\<close> stays before a later \<open>b\<close>
  unless \<open>cmp(a, b) > 0\<close>; a comparator result of NaN counts as \<open>+0\<close>. For a comparator
  that is a consistent ordering every conforming sort returns this list; for an
  inconsistent one (NaN amounts) ECMAScript leaves the order to the implementation, and
  this insertion sort is one such implementation.
\<close>

fun js_insert :: "('a \<Rightarrow> 'a \<Rightarrow> jsnum) \<Rightarrow> 'a \<Rightarrow> 'a list \<Rightarrow> 'a list" where
  "js_insert cmp x [] = [x]"
| "js_insert cmp x (y # ys) =
     (if js_lt (Fin 0) (cmp x y) then y # js_insert cmp x ys else x # y # ys)"

definition js_sort :: "('a \<Rightarrow> 'a \<Rightarrow> jsnum) \<Rightarrow> 'a list \<Rightarrow> 'a list" where
  "js_sort cmp xs = foldr (js_insert cmp) xs []"

section \<open>Room state\<close>

text \<open>
  The room of the server: \<open>{ id, hostId, config: { budget, revealBids, allowJoinAfterLock },
  locked, topics: [{ id, name, capacity }], players: Map(playerId -> { id, name, spent }),
  bids: Map(playerId -> Map(topicId -> { amount, ts })) }\<close>. A JavaScript \<open>Map\<close> iterates
  in insertion order, \<open>set\<close> keeps the place of a key that is present and appends a new one:
  an association list with \<open>AList.update\<close>, \<open>AList.delete\<close> and \<open>map_of\<close>. The socket
  kept in a player entry belongs to the transport and is left out. Every write of a bid
  sets \<open>ts\<close> from \<open>Date.now()\<close>, so \<open>ts\<close> is an integer in every stored bid and the
  \<open>b.ts ?? Date.now()\<close> defaults of the readers never fire. \<open>Date.now()\<close> is a whole
  number of milliseconds below \<open>2^53\<close>, so the differences of timestamps that the
  comparators take are exact.
\<close>

record bid =
  amount :: jsnum
  ts :: int

record topic =
  tid :: string
  tname :: string
  capacity :: nat

record player =
  pname :: string
  spent :: jsnum

record config =
  budget :: jsnum
  revealBids :: bool
  allowJoinAfterLock :: bool

record room =
  rid :: string
  hostId :: "string option"
  config :: config
  locked :: bool
  topics :: "topic list"
  players :: "(string \<times> player) list"
  bids :: "(string \<times> (string \<times> bid) list) list"

definition newRoom :: "string \<Rightarrow> room" where
  "newRoom roomId =
     \<lparr>rid = roomId, hostId = None,
      config = \<lparr>budget = Fin 100, revealBids = True, allowJoinAfterLock = True\<rparr>,
      locked = False, topics = [], players = [], bids = []\<rparr>"

text \<open>\<open>recomputeSpent(room, playerId)\<close>: the sum of the stored amounts, as they are.\<close>

definition sumAmounts :: "(string \<times> bid) list \<Rightarrow> jsnum" where
  "sumAmounts perTopic = foldl (\<lambda>s kb. js_add s (amount (snd kb))) (Fin 0) perTopic"

definition spentOf :: "room \<Rightarrow> string \<Rightarrow> jsnum" where
  "spentOf room playerId =
     (case map_of (bids room) playerId of None \<Rightarrow> Fin 0 | Some perTopic \<Rightarrow> sumAmounts perTopic)"

definition recomputeSpent :: "room \<Rightarrow> string \<Rightarrow> room" where
  "recomputeSpent room playerId =
     room\<lparr>players := AList.map_entry playerId (\<lambda>p. p\<lparr>spent := spentOf room playerId\<rparr>) (players room)\<rparr>"

section \<open>Budget clamp\<close>

text \<open>
  \<open>Date.now()\<close> is read from a clock \<open>clk\<close>: the \<open>k\<close>-th reading of the run is
  \<open>clk k\<close>, and a function that reads the clock returns the number of the next reading.
\<close>

record entry =
  topicId :: string
  eamount :: jsnum
  ets :: int

definition toEntries :: "(string \<times> bid) list \<Rightarrow> entry list" where
  "toEntries perTopic =
     map (\<lambda>kb. \<lparr>topicId = fst kb, eamount = js_max (Fin 0) (js_floor (amount (snd kb))),
                ets = ts (snd kb)\<rparr>) perTopic"

definition totalOf :: "entry list \<Rightarrow> jsnum" where
  "totalOf entries = foldl (\<lambda>s e. js_add s (eamount e)) (Fin 0) entries"

text \<open>The comparator of the clamp: ascending by amount, then newest first.\<close>

definition clampCmp :: "entry \<Rightarrow> entry \<Rightarrow> jsnum" where
  "clampCmp a b =
     (if js_neq (eamount a) (eamount b) then js_sub (eamount a) (eamount b)
      else Fin (of_int (ets b - ets a)))"

text \<open>The trimming loop, with its \<open>break\<close> and its \<open>continue\<close>.\<close>

fun trimLoop :: "jsnum \<Rightarrow> entry list \<Rightarrow> entry list" where
  "trimLoop over [] = []"
| "trimLoop over (e # es) =
     (if js_le over (Fin 0) then e # es
      else if js_le (eamount e) (Fin 0) then e # trimLoop over es
      else e\<lparr>eamount := js_sub (eamount e) (js_min (eamount e) over)\<rparr>
             # trimLoop (js_sub over (js_min (eamount e) over)) es)"

text \<open>The write back: one \<open>newMap.set\<close> and one clock reading for each entry.\<close>

fun writeBack :: "(nat \<Rightarrow> int) \<Rightarrow> nat \<Rightarrow> entry list \<Rightarrow> (string \<times> bid) list
    \<Rightarrow> (string \<times> bid) list" where
  "writeBack clk k [] newMap = newMap"
| "writeBack clk k (e # es) newMap =
     writeBack clk (Suc k) es (AList.update (topicId e) \<lparr>amount = eamount e, ts = clk k\<rparr> newMap)"

definition clampBidsToBudget :: "(nat \<Rightarrow> int) \<Rightarrow> nat \<Rightarrow> room \<Rightarrow> string \<Rightarrow> room \<times> nat" where
  "clampBidsToBudget clk k room playerId =
     (case map_of (bids room) playerId of
        None \<Rightarrow> (room, k)
      | Some perTopic \<Rightarrow>
          let entries = toEntries perTopic; total = totalOf entries in
          if js_le total (budget (config room)) then (recomputeSpent room playerId, k)
          else
            let sorted = js_sort clampCmp entries;
                trimmed = trimLoop (js_sub total (budget (config room))) sorted;
                newMap = writeBack clk k trimmed []
            in (recomputeSpent (room\<lparr>bids := AList.update playerId newMap (bids room)\<rparr>) playerId,
                k + length trimmed))"

section \<open>Allocation\<close>

text \<open>
  \<open>computeWinners(room)\<close>. The three maps keyed by topic id, \<open>bidLists\<close>,
  \<open>winnersByTopic\<close> and \<open>nextIndex\<close>, are functions of the topic id: the source reads
  \<open>bidLists\<close> and \<open>nextIndex\<close> with the defaults \<open>?? []\<close> and \<open>?? 0\<close> and gives every
  topic id an empty winner set before anything else. A JavaScript \<open>Set\<close> is the list of
  its members in insertion order. \<open>String.prototype.localeCompare\<close> belongs to the runtime
  and is the parameter \<open>lc\<close>. The helper \<open>tryFillTopic\<close> and the two maps only it writes
  are never used and are left out.
\<close>

record cand =
  playerId :: string
  camount :: jsnum
  cts :: int

definition sadd :: "'a \<Rightarrow> 'a list \<Rightarrow> 'a list" where
  "sadd x s = (if x \<in> set s then s else s @ [x])"

definition sdelete :: "'a \<Rightarrow> 'a list \<Rightarrow> 'a list" where
  "sdelete x s = removeAll x s"

definition candOf :: "string \<Rightarrow> string \<times> (string \<times> bid) list \<Rightarrow> cand list" where
  "candOf t pb =
     (case map_of (snd pb) t of
        None \<Rightarrow> []
      | Some b \<Rightarrow>
          if js_le (js_max (Fin 0) (js_floor (amount b))) (Fin 0) then []
          else [\<lparr>playerId = fst pb, camount = js_max (Fin 0) (js_floor (amount b)), cts = ts b\<rparr>])"

definition candidates :: "(string \<times> (string \<times> bid) list) list \<Rightarrow> string \<Rightarrow> cand list" where
  "candidates bs t = concat (map (candOf t) bs)"

definition candCmp :: "(string \<Rightarrow> string \<Rightarrow> int) \<Rightarrow> cand \<Rightarrow> cand \<Rightarrow> jsnum" where
  "candCmp lc a b =
     (if js_neq (camount b) (camount a) then js_sub (camount b) (camount a)
      else if cts a \<noteq> cts b then Fin (of_int (cts a - cts b))
      else Fin (of_int (lc (playerId a) (playerId b))))"

definition buildBidLists :: "(string \<Rightarrow> string \<Rightarrow> int) \<Rightarrow> room \<Rightarrow> string \<Rightarrow> cand list" where
  "buildBidLists lc room =
     foldl (\<lambda>m t. m(tid t := js_sort (candCmp lc) (candidates (bids room) (tid t))))
       (\<lambda>_. []) (topics room)"

record alloc =
  winners :: "string \<Rightarrow> string list"
  nextIndex :: "string \<Rightarrow> nat"

text \<open>Step 1: the top \<open>capacity\<close> candidates of every topic.\<close>

definition tentativeTopic :: "(string \<Rightarrow> cand list) \<Rightarrow> alloc \<Rightarrow> topic \<Rightarrow> alloc" where
  "tentativeTopic bl st t =
     \<lparr>winners = (winners st)(tid t :=
          foldl (\<lambda>w c. sadd (playerId c) w) (winners st (tid t))
            (take (min (capacity t) (length (bl (tid t)))) (bl (tid t)))),
      nextIndex = (nextIndex st)(tid t := min (capacity t) (length (bl (tid t))))\<rparr>"

definition tentative :: "(string \<Rightarrow> cand list) \<Rightarrow> topic list \<Rightarrow> alloc" where
  "tentative bl tops = foldl (tentativeTopic bl) \<lparr>winners = (\<lambda>_. []), nextIndex = (\<lambda>_. 0)\<rparr> tops"

text \<open>\<open>buildPlayerWins()\<close>: for every player, the topics they are winning, in topic order.\<close>

definition addWin :: "(string \<times> entry list) list \<Rightarrow> string \<Rightarrow> entry \<Rightarrow> (string \<times> entry list) list" where
  "addWin pw p w =
     AList.update p ((case map_of pw p of None \<Rightarrow> [] | Some ws \<Rightarrow> ws) @ [w]) pw"

definition winsOfTopic :: "(string \<Rightarrow> cand list) \<Rightarrow> (string \<Rightarrow> string list) \<Rightarrow>
    (string \<times> entry list) list \<Rightarrow> topic \<Rightarrow> (string \<times> entry list) list" where
  "winsOfTopic bl w pw t =
     foldl (\<lambda>pw p. case find (\<lambda>b. playerId b = p) (bl (tid t)) of
                      None \<Rightarrow> pw
                    | Some b \<Rightarrow> addWin pw p \<lparr>topicId = tid t, eamount = camount b, ets = cts b\<rparr>)
       pw (w (tid t))"

definition buildPlayerWins :: "(string \<Rightarrow> cand list) \<Rightarrow> (string \<Rightarrow> string list) \<Rightarrow> topic list
    \<Rightarrow> (string \<times> entry list) list" where
  "buildPlayerWins bl w tops = foldl (winsOfTopic bl w) [] tops"

definition winCmp :: "(string \<Rightarrow> string \<Rightarrow> int) \<Rightarrow> entry \<Rightarrow> entry \<Rightarrow> jsnum" where
  "winCmp lc a b =
     (if js_neq (eamount b) (eamount a) then js_sub (eamount b) (eamount a)
      else if ets a \<noteq> ets b then Fin (of_int (ets a - ets b))
      else Fin (of_int (lc (topicId a) (topicId b))))"

text \<open>
  \<open>keepByPlayer\<close>: for a player winning two topics or more, the topic of the first win in
  the order of \<open>winCmp\<close>. The keys of \<open>playerWins\<close> are distinct, so the entries of this
  map are the entries set, in order.
\<close>

definition keepOf :: "(string \<Rightarrow> string \<Rightarrow> int) \<Rightarrow> string \<times> entry list \<Rightarrow> (string \<times> string) list" where
  "keepOf lc pw =
     (if length (snd pw) \<le> 1 then []
      else case js_sort (winCmp lc) (snd pw) of [] \<Rightarrow> [] | w # _ \<Rightarrow> [(fst pw, topicId w)])"

definition keepByPlayer :: "(string \<Rightarrow> string \<Rightarrow> int) \<Rightarrow> (string \<times> entry list) list
    \<Rightarrow> (string \<times> string) list" where
  "keepByPlayer lc playerWins = concat (map (keepOf lc) playerWins)"

text \<open>Remove a player from the topics they should not keep.\<close>

definition dropFrom :: "string \<times> string \<Rightarrow> (string \<Rightarrow> string list) \<times> bool \<Rightarrow> topic
    \<Rightarrow> (string \<Rightarrow> string list) \<times> bool" where
  "dropFrom pk wc t =
     (if fst pk \<notin> set (fst wc (tid t)) then wc
      else if tid t = snd pk then wc
      else ((fst wc)(tid t := sdelete (fst pk) (fst wc (tid t))), True))"

definition dropPlayer :: "topic list \<Rightarrow> (string \<Rightarrow> string list) \<times> bool \<Rightarrow> string \<times> string
    \<Rightarrow> (string \<Rightarrow> string list) \<times> bool" where
  "dropPlayer tops wc pk = foldl (dropFrom pk) wc tops"

definition removeLosers :: "topic list \<Rightarrow> (string \<times> string) list \<Rightarrow> (string \<Rightarrow> string list) \<times> bool
    \<Rightarrow> (string \<Rightarrow> string list) \<times> bool" where
  "removeLosers tops keep wc = foldl (dropPlayer tops) wc keep"

text \<open>Who is winning something.\<close>

definition winningPlayers :: "(string \<Rightarrow> string list) \<Rightarrow> topic list \<Rightarrow> string list" where
  "winningPlayers w tops = foldl (\<lambda>wp t. foldl (\<lambda>wp pid. sadd pid wp) wp (w (tid t))) [] tops"

text \<open>
  The refill loop of one topic, on its index \<open>idx\<close>, its winner set \<open>ws\<close>, the set
  \<open>wp\<close> of winning players and the flag \<open>changed\<close>.
\<close>

function refillLoop :: "nat \<Rightarrow> cand list \<Rightarrow> nat \<Rightarrow> string list \<Rightarrow> string list \<Rightarrow> bool
    \<Rightarrow> nat \<times> string list \<times> string list \<times> bool" where
  "refillLoop cap list idx ws wp ch =
     (if length ws < cap \<and> idx < length list then
        (if playerId (list ! idx) \<in> set ws then refillLoop cap list (Suc idx) ws wp ch
         else if playerId (list ! idx) \<in> set wp then refillLoop cap list (Suc idx) ws wp ch
         else refillLoop cap list (Suc idx)
                (sadd (playerId (list ! idx)) ws) (sadd (playerId (list ! idx)) wp) True)
      else (idx, ws, wp, ch))"
  by pat_completeness auto
termination
  by (relation "measure (\<lambda>(cap, list, idx, ws, wp, ch). length list - idx)") auto

declare refillLoop.simps [simp del]

definition refillTopic :: "(string \<Rightarrow> cand list) \<Rightarrow> alloc \<times> string list \<times> bool \<Rightarrow> topic
    \<Rightarrow> alloc \<times> string list \<times> bool" where
  "refillTopic bl s t =
     (case s of (st, wp, ch) \<Rightarrow>
        if length (winners st (tid t)) \<ge> capacity t then s
        else
          (case refillLoop (capacity t) (bl (tid t)) (nextIndex st (tid t)) (winners st (tid t)) wp ch
           of (idx, ws, wp', ch') \<Rightarrow>
             (\<lparr>winners = (winners st)(tid t := ws), nextIndex = (nextIndex st)(tid t := idx)\<rparr>,
              wp', ch')))"

text \<open>One pass of the resolution loop; the flag it returns is \<open>changed\<close>.\<close>

definition resolvePass :: "(string \<Rightarrow> string \<Rightarrow> int) \<Rightarrow> (string \<Rightarrow> cand list) \<Rightarrow> topic list \<Rightarrow> alloc
    \<Rightarrow> alloc \<times> bool" where
  "resolvePass lc bl tops st =
     (let keep = keepByPlayer lc (buildPlayerWins bl (winners st) tops);
          wc = removeLosers tops keep (winners st, False);
          st1 = st\<lparr>winners := fst wc\<rparr>;
          r = foldl (refillTopic bl) (st1, winningPlayers (fst wc) tops, snd wc) tops
      in (fst r, snd (snd r)))"

text \<open>
  \<open>while (changed && safety++ < 1000)\<close>: the result holds the flag and the counter as the
  loop leaves them.
\<close>

function resolveLoop :: "(string \<Rightarrow> string \<Rightarrow> int) \<Rightarrow> (string \<Rightarrow> cand list) \<Rightarrow> topic list
    \<Rightarrow> bool \<Rightarrow> nat \<Rightarrow> alloc \<Rightarrow> bool \<times> nat \<times> alloc" where
  "resolveLoop lc bl tops changed safety st =
     (if changed then
        (if safety < 1000 then
           resolveLoop lc bl tops
             (snd (resolvePass lc bl tops st)) (Suc safety) (fst (resolvePass lc bl tops st))
         else (changed, Suc safety, st))
      else (changed, safety, st))"
  by pat_completeness auto
termination
  by (relation "measure (\<lambda>(lc, bl, tops, changed, safety, st). 1000 - safety)") auto

declare resolveLoop.simps [simp del]

record result =
  winnersByTopic :: "(string \<times> string list) list"
  assignmentByPlayer :: "(string \<times> string) list"

text \<open>The output object: one property for each topic id, and the inverse assignment.\<close>

definition buildResult :: "(string \<Rightarrow> string list) \<Rightarrow> topic list \<Rightarrow> result" where
  "buildResult w tops =
     \<lparr>winnersByTopic = foldl (\<lambda>r t. AList.update (tid t) (w (tid t)) r) [] tops,
      assignmentByPlayer =
        foldl (\<lambda>r t. foldl (\<lambda>r pid. AList.update pid (tid t) r) r (w (tid t))) [] tops\<rparr>"

definition finalAlloc :: "(string \<Rightarrow> string \<Rightarrow> int) \<Rightarrow> room \<Rightarrow> bool \<times> nat \<times> alloc" where
  "finalAlloc lc room =
     resolveLoop lc (buildBidLists lc room) (topics room)
       True 0 (tentative (buildBidLists lc room) (topics room))"

definition computeWinners :: "(string \<Rightarrow> string \<Rightarrow> int) \<Rightarrow> room \<Rightarrow> result" where
  "computeWinners lc room =
     buildResult (winners (snd (snd (finalAlloc lc room)))) (topics room)"

section \<open>Events\<close>

text \<open>
  A message as the handler reads it. A field read through \<open>??\<close> is \<open>None\<close> when it is
  missing or \<open>null\<close>; a numeric field holds the number that \<open>Number\<close> or \<open>Math.floor\<close>
  makes of the value supplied (NaN for a value that is not numeric, such as the string
  \<open>"abc"\<close>); a flag is \<open>Some\<close> only for a value of type boolean. \<open>join\<close> carries the
  room code and the name after their normalisation, \<open>set_topics\<close> the topic list after
  its normalisation (at most 50 entries, ids that were not supplied drawn from
  \<open>nanoid\<close>, capacities floored and clamped to 1..20), \<open>bid\<close> the topic id after
  \<open>String\<close>. Capacities are whole numbers here. A capacity that is not numeric is stored
  as NaN by the source; every comparison of \<open>computeWinners\<close> with it is false, so such a
  topic never gets a winner, which is what the capacity 0 does for a topic whose id no
  other topic shares.
\<close>

datatype message =
    Join string string
  | SetConfig "jsnum option" "bool option" "bool option"
  | SetTopics "topic list"
  | LockBids
  | UnlockBids
  | Bid string "jsnum option"
  | ComputeWinners
  | Unknown

text \<open>What the server sends; a snapshot is the room itself.\<close>

datatype notification =
    ErrorMsg string
  | Joined string room
  | RoomUpdate room
  | WinnersMsg result

text \<open>\<open>set_config\<close>: the new budget, then the clamp for every player.\<close>

definition newBudget :: "jsnum option \<Rightarrow> jsnum \<Rightarrow> jsnum" where
  "newBudget b old =
     js_max (Fin 1) (js_min (Fin 10000) (js_floor (case b of None \<Rightarrow> old | Some x \<Rightarrow> x)))"

definition clampAll :: "(nat \<Rightarrow> int) \<Rightarrow> string list \<Rightarrow> room \<times> nat \<Rightarrow> room \<times> nat" where
  "clampAll clk pids rk = foldl (\<lambda>rk pid. clampBidsToBudget clk (snd rk) (fst rk) pid) rk pids"

definition setConfig :: "(nat \<Rightarrow> int) \<Rightarrow> nat \<Rightarrow> jsnum option \<Rightarrow> bool option \<Rightarrow> bool option \<Rightarrow> room
    \<Rightarrow> room \<times> nat" where
  "setConfig clk k b rv aj room =
     (let c1 = (config room)\<lparr>budget := newBudget b (budget (config room))\<rparr>;
          c2 = (case rv of None \<Rightarrow> c1 | Some v \<Rightarrow> c1\<lparr>revealBids := v\<rparr>);
          c3 = (case aj of None \<Rightarrow> c2 | Some v \<Rightarrow> c2\<lparr>allowJoinAfterLock := v\<rparr>)
      in clampAll clk (map fst (players room)) (room\<lparr>config := c3\<rparr>, k))"

text \<open>\<open>set_topics\<close>: the bids on deleted topics go, then \<open>recomputeSpent\<close> and the clamp.\<close>

definition pruneBids :: "(nat \<Rightarrow> int) \<Rightarrow> room \<times> nat \<Rightarrow> string \<Rightarrow> room \<times> nat" where
  "pruneBids clk rk pid =
     (case map_of (bids (fst rk)) pid of
        None \<Rightarrow> rk
      | Some perTopic \<Rightarrow>
          clampBidsToBudget clk (snd rk)
            (recomputeSpent
               ((fst rk)\<lparr>bids := AList.update pid
                    (filter (\<lambda>kb. fst kb \<in> tid ` set (topics (fst rk))) perTopic) (bids (fst rk))\<rparr>)
               pid)
            pid)"

definition setTopics :: "(nat \<Rightarrow> int) \<Rightarrow> nat \<Rightarrow> topic list \<Rightarrow> room \<Rightarrow> room \<times> nat" where
  "setTopics clk k tops room =
     foldl (pruneBids clk) (room\<lparr>topics := tops\<rparr>, k) (map fst (bids room))"

text \<open>\<open>bid\<close>, once the room is known to be unlocked.\<close>

definition bidAmount :: "jsnum option \<Rightarrow> jsnum" where
  "bidAmount a = js_max (Fin 0) (js_floor (case a of None \<Rightarrow> Fin 0 | Some x \<Rightarrow> x))"

definition placeBid :: "(nat \<Rightarrow> int) \<Rightarrow> nat \<Rightarrow> string \<Rightarrow> string \<Rightarrow> jsnum option \<Rightarrow> room
    \<Rightarrow> room \<times> nat" where
  "placeBid clk k pid t a room =
     clampBidsToBudget clk (Suc k)
       (room\<lparr>bids := AList.update pid
            (AList.update t \<lparr>amount = bidAmount a, ts = clk k\<rparr>
               (case map_of (bids room) pid of None \<Rightarrow> [] | Some perTopic \<Rightarrow> perTopic))
            (bids room)\<rparr>)
       pid"

text \<open>
  The messages other than \<open>join\<close>, from a player of the room: the new room, what is sent,
  and the number of the next clock reading. A message that matches no branch of the
  handler does nothing.
\<close>

definition handleInRoom :: "(string \<Rightarrow> string \<Rightarrow> int) \<Rightarrow> (nat \<Rightarrow> int) \<Rightarrow> nat \<Rightarrow> string \<Rightarrow> message
    \<Rightarrow> room \<Rightarrow> room \<times> notification list \<times> nat" where
  "handleInRoom lc clk k pid m room =
     (let isHost = (hostId room = Some pid) in
      case m of
        SetConfig b rv aj \<Rightarrow>
          if isHost then
            (case setConfig clk k b rv aj room of (r, k') \<Rightarrow> (r, [RoomUpdate r], k'))
          else (room, [], k)
      | SetTopics tops \<Rightarrow>
          if isHost then
            (case setTopics clk k tops room of (r, k') \<Rightarrow> (r, [RoomUpdate r], k'))
          else (room, [], k)
      | LockBids \<Rightarrow>
          if isHost then (room\<lparr>locked := True\<rparr>, [RoomUpdate (room\<lparr>locked := True\<rparr>)], k)
          else (room, [], k)
      | UnlockBids \<Rightarrow>
          if isHost then (room\<lparr>locked := False\<rparr>, [RoomUpdate (room\<lparr>locked := False\<rparr>)], k)
          else (room, [], k)
      | Bid t a \<Rightarrow>
          if locked room then (room, [], k)
          else if t \<notin> tid ` set (topics room) then (room, [], k)
          else (case placeBid clk k pid t a room of (r, k') \<Rightarrow> (r, [RoomUpdate r], k'))
      | ComputeWinners \<Rightarrow>
          if isHost then (room, [WinnersMsg (computeWinners lc room)], k) else (room, [], k)
      | _ \<Rightarrow> (room, [], k))"

text \<open>
  The server: the room store, and for every connection its player id and the room it
  joined last. \<open>join\<close> looks the room up or creates it.
\<close>

record conn =
  connId :: string
  connRoom :: "string option"

definition getOrCreateRoom :: "string \<Rightarrow> (string \<times> room) list \<Rightarrow> room \<times> (string \<times> room) list" where
  "getOrCreateRoom roomId rooms =
     (case map_of rooms roomId of
        Some room \<Rightarrow> (room, rooms)
      | None \<Rightarrow> (newRoom roomId, AList.update roomId (newRoom roomId) rooms))"

definition joinRoom :: "string \<Rightarrow> string \<Rightarrow> room \<Rightarrow> room" where
  "joinRoom pid name room =
     (let r1 = (if hostId room = None then room\<lparr>hostId := Some pid\<rparr> else room);
          r2 = r1\<lparr>players := AList.update pid \<lparr>pname = name, spent = Fin 0\<rparr> (players r1)\<rparr>;
          r3 = (if map_of (bids r2) pid = None then r2\<lparr>bids := AList.update pid [] (bids r2)\<rparr>
                else r2)
      in recomputeSpent r3 pid)"

definition onMessage :: "(string \<Rightarrow> string \<Rightarrow> int) \<Rightarrow> (nat \<Rightarrow> int) \<Rightarrow> nat \<Rightarrow> conn \<Rightarrow> message
    \<Rightarrow> (string \<times> room) list \<Rightarrow> conn \<times> (string \<times> room) list \<times> notification list \<times> nat" where
  "onMessage lc clk k c m rooms =
     (case m of
        Join roomId name \<Rightarrow>
          if roomId = [] then (c, rooms, [ErrorMsg ''Room code required.''], k)
          else
            (case getOrCreateRoom roomId rooms of (room, rooms1) \<Rightarrow>
               if locked room \<and> \<not> allowJoinAfterLock (config room)
               then (c\<lparr>connRoom := Some roomId\<rparr>, rooms1, [ErrorMsg ''Room is locked.''], k)
               else
                 (c\<lparr>connRoom := Some roomId\<rparr>,
                  AList.update roomId (joinRoom (connId c) name room) rooms1,
                  [Joined (connId c) (joinRoom (connId c) name room),
                   RoomUpdate (joinRoom (connId c) name room)], k))
      | _ \<Rightarrow>
          (case connRoom c of
             None \<Rightarrow> (c, rooms, [], k)
           | Some roomId \<Rightarrow>
               (case map_of rooms roomId of
                  None \<Rightarrow> (c, rooms, [], k)
                | Some room \<Rightarrow>
                    if map_of (players room) (connId c) = None then (c, rooms, [], k)
                    else
                      (case handleInRoom lc clk k (connId c) m room of (r, out, k') \<Rightarrow>
                         (c, AList.update roomId r rooms, out, k')))))"



section \<open>Notions used in the statements\<close>

text \<open>
  The bid map that the write back of the clamp builds from a list of entries whose topic
  ids are distinct: every entry in turn, with the clock readings \<open>k\<close>, \<open>k + 1\<close>, ...
\<close>

definition stamp :: "(nat \<Rightarrow> int) \<Rightarrow> nat \<Rightarrow> entry list \<Rightarrow> (string \<times> bid) list" where
  "stamp clk k es =
     map (\<lambda>ej. (topicId (fst ej), \<lparr>amount = eamount (fst ej), ts = clk (snd ej)\<rparr>))
       (zip es [k..<k + length es])"

text \<open>
  The trim order in the words of the specification: ascending by amount, and within equal
  amounts the larger timestamp first.
\<close>

definition trimmedBefore :: "entry \<Rightarrow> entry \<Rightarrow> bool" where
  "trimmedBefore a b =
     (js_lt (eamount a) (eamount b) \<or> (eamount a = eamount b \<and> ets b \<le> ets a))"

text \<open>
  The entries of the clamp in the words of the specification: for every stored bid, in the
  order of the bid map, its topic, its amount floored and clamped at 0, and its timestamp.
\<close>

definition specEntries :: "(string \<times> bid) list \<Rightarrow> entry list" where
  "specEntries perTopic =
     map (\<lambda>(t, b). \<lparr>topicId = t, eamount = js_max (Fin 0) (js_floor (amount b)), ets = ts b\<rparr>)
       perTopic"

text \<open>The total of the entries: their amounts added up from 0, in the order of the bid map.\<close>

fun addUp :: "jsnum \<Rightarrow> jsnum list \<Rightarrow> jsnum" where
  "addUp s [] = s"
| "addUp s (a # as) = addUp (js_add s a) as"

definition specTotal :: "entry list \<Rightarrow> jsnum" where
  "specTotal es = addUp (Fin 0) (map eamount es)"

text \<open>
  The walk in the words of the specification: subtract \<open>min(amount, remaining overage)\<close>
  from each entry that is not zero, until the overage is zero.
\<close>

fun specTrim :: "jsnum \<Rightarrow> entry list \<Rightarrow> entry list" where
  "specTrim over [] = []"
| "specTrim over (e # es) =
     (if over = Fin 0 then e # es
      else if eamount e = Fin 0 then e # specTrim over es
      else e\<lparr>eamount := js_sub (eamount e) (js_min (eamount e) over)\<rparr>
             # specTrim (js_sub over (js_min (eamount e) over)) es)"

text \<open>A number that is a whole number and not negative.\<close>

definition isNonNegInt :: "jsnum \<Rightarrow> bool" where
  "isNonNegInt x = (case x of Fin q \<Rightarrow> 0 \<le> q \<and> of_int \<lfloor>q\<rfloor> = q | _ \<Rightarrow> False)"

text \<open>The wins that \<open>playerWins\<close> holds for a player.\<close>

definition winsOf :: "(string \<times> entry list) list \<Rightarrow> string \<Rightarrow> entry list" where
  "winsOf pw p = (case map_of pw p of None \<Rightarrow> [] | Some ws \<Rightarrow> ws)"

text \<open>
  Properties of an allocation state: every winner of a topic id is a candidate of it; no
  player is in the winner sets of two topic ids; no winner set is larger than the capacity
  of its topic; every topic is full or has used up its candidate list.
\<close>

definition candidatesOnly :: "(string \<Rightarrow> cand list) \<Rightarrow> (string \<Rightarrow> string list) \<Rightarrow> bool" where
  "candidatesOnly bl w = (\<forall>i. set (w i) \<subseteq> playerId ` set (bl i))"

definition oneTopicEach :: "topic list \<Rightarrow> (string \<Rightarrow> string list) \<Rightarrow> bool" where
  "oneTopicEach tops w =
     (\<forall>t1\<in>set tops. \<forall>t2\<in>set tops. tid t1 \<noteq> tid t2 \<longrightarrow> set (w (tid t1)) \<inter> set (w (tid t2)) = {})"

definition withinCapacity :: "topic list \<Rightarrow> (string \<Rightarrow> string list) \<Rightarrow> bool" where
  "withinCapacity tops w = (\<forall>t\<in>set tops. length (w (tid t)) \<le> capacity t)"

definition settled :: "(string \<Rightarrow> cand list) \<Rightarrow> topic list \<Rightarrow> alloc \<Rightarrow> bool" where
  "settled bl tops st =
     (\<forall>t\<in>set tops. capacity t \<le> length (winners st (tid t))
        \<or> length (bl (tid t)) \<le> nextIndex st (tid t))"

section \<open>Concrete data for the examples\<close>

text \<open>A collation for the examples: the order of the code units.\<close>

fun unitCompare :: "string \<Rightarrow> string \<Rightarrow> int" where
  "unitCompare [] [] = 0"
| "unitCompare [] (y # ys) = - 1"
| "unitCompare (x # xs) [] = 1"
| "unitCompare (x # xs) (y # ys) =
     (if (of_char x :: nat) < of_char y then - 1
      else if (of_char y :: nat) < of_char x then 1
      else unitCompare xs ys)"

text \<open>A clock that advances by one millisecond at every reading.\<close>

definition tick :: "nat \<Rightarrow> int" where
  "tick k = 1000 + int k"

text \<open>A run of messages of one connection after another, from a given store.\<close>

fun run :: "(string \<Rightarrow> string \<Rightarrow> int) \<Rightarrow> (nat \<Rightarrow> int) \<Rightarrow> nat \<Rightarrow> (string \<times> message) list
    \<Rightarrow> (string \<times> conn) list \<times> (string \<times> room) list
    \<Rightarrow> (string \<times> conn) list \<times> (string \<times> room) list" where
  "run lc clk k [] s = s"
| "run lc clk k ((pid, m) # ms) (conns, rooms) =
     (case onMessage lc clk k
             (case map_of conns pid of None \<Rightarrow> \<lparr>connId = pid, connRoom = None\<rparr> | Some c \<Rightarrow> c)
             m rooms
      of (c, rooms1, out, k') \<Rightarrow> run lc clk k' ms (AList.update pid c conns, rooms1))"

definition clampRoom :: room where
  "clampRoom = (newRoom ''R'')\<lparr>hostId := Some ''p'',
      topics := [\<lparr>tid = ''X'', tname = ''Topic'', capacity = 1\<rparr>,
                 \<lparr>tid = ''Y'', tname = ''Topic'', capacity = 1\<rparr>],
      players := [(''p'', \<lparr>pname = ''Player'', spent = Fin 110\<rparr>)],
      bids := [(''p'', [(''X'', \<lparr>amount = Fin 60, ts = 10\<rparr>), (''Y'', \<lparr>amount = Fin 50, ts = 20\<rparr>)])]\<rparr>"

definition tieClampRoom :: room where
  "tieClampRoom = (newRoom ''R'')\<lparr>hostId := Some ''p'',
      topics := [\<lparr>tid = ''X'', tname = ''Topic'', capacity = 1\<rparr>,
                 \<lparr>tid = ''Y'', tname = ''Topic'', capacity = 1\<rparr>,
                 \<lparr>tid = ''Z'', tname = ''Topic'', capacity = 1\<rparr>],
      players := [(''p'', \<lparr>pname = ''Player'', spent = Fin 130\<rparr>)],
      bids := [(''p'', [(''X'', \<lparr>amount = Fin 60, ts = 10\<rparr>), (''Y'', \<lparr>amount = Fin 60, ts = 20\<rparr>),
                        (''Z'', \<lparr>amount = Fin 10, ts = 30\<rparr>)])]\<rparr>"

definition auctionRoom :: room where
  "auctionRoom = (newRoom ''R'')\<lparr>hostId := Some ''h'',
      topics := [\<lparr>tid = ''A'', tname = ''Topic A'', capacity = 1\<rparr>,
                 \<lparr>tid = ''B'', tname = ''Topic B'', capacity = 1\<rparr>],
      players := [(''h'', \<lparr>pname = ''Host'', spent = Fin 0\<rparr>),
                  (''p1'', \<lparr>pname = ''Player'', spent = Fin 50\<rparr>),
                  (''p2'', \<lparr>pname = ''Player'', spent = Fin 100\<rparr>)],
      bids := [(''h'', []),
               (''p1'', [(''A'', \<lparr>amount = Fin 50, ts = 1000\<rparr>)]),
               (''p2'', [(''A'', \<lparr>amount = Fin 80, ts = 1001\<rparr>),
                         (''B'', \<lparr>amount = Fin 20, ts = 1002\<rparr>)])]\<rparr>"

definition tieRoom :: room where
  "tieRoom = (newRoom ''R'')\<lparr>hostId := Some ''p1'',
      topics := [\<lparr>tid = ''A'', tname = ''Topic A'', capacity = 1\<rparr>,
                 \<lparr>tid = ''B'', tname = ''Topic B'', capacity = 2\<rparr>],
      players := [(''p1'', \<lparr>pname = ''Player'', spent = Fin 100\<rparr>),
                  (''p2'', \<lparr>pname = ''Player'', spent = Fin 50\<rparr>),
                  (''p3'', \<lparr>pname = ''Player'', spent = Fin 10\<rparr>)],
      bids := [(''p1'', [(''A'', \<lparr>amount = Fin 50, ts = 1000\<rparr>),
                         (''B'', \<lparr>amount = Fin 50, ts = 1000\<rparr>)]),
               (''p2'', [(''A'', \<lparr>amount = Fin 50, ts = 1000\<rparr>)]),
               (''p3'', [(''B'', \<lparr>amount = Fin 10, ts = 1005\<rparr>),
                         (''A'', \<lparr>amount = Fin 0, ts = 1006\<rparr>)])]\<rparr>"

definition dupRoom :: room where
  "dupRoom = (newRoom ''R'')\<lparr>hostId := Some ''p'',
      topics := [\<lparr>tid = ''A'', tname = ''Topic'', capacity = 1\<rparr>,
                 \<lparr>tid = ''A'', tname = ''Topic'', capacity = 2\<rparr>],
      players := [(''p'', \<lparr>pname = ''Player'', spent = Fin 5\<rparr>),
                  (''q'', \<lparr>pname = ''Player'', spent = Fin 3\<rparr>)],
      bids := [(''p'', [(''A'', \<lparr>amount = Fin 5, ts = 1000\<rparr>)]),
               (''q'', [(''A'', \<lparr>amount = Fin 3, ts = 1001\<rparr>)])]\<rparr>"

definition nanRoom :: room where
  "nanRoom = (newRoom ''R'')\<lparr>hostId := Some ''p'',
      topics := [\<lparr>tid = ''A'', tname = ''Topic'', capacity = 1\<rparr>],
      players := [(''p'', \<lparr>pname = ''Player'', spent = NaN\<rparr>)],
      bids := [(''p'', [(''A'', \<lparr>amount = NaN, ts = 1000\<rparr>)])]\<rparr>"

definition nanBudgetRun :: "(string \<times> room) list" where
  "nanBudgetRun = snd (run unitCompare tick 0
     [(''h'', Join ''R'' ''Host''), (''h'', SetConfig (Some NaN) None None)] ([], []))"

definition nanBidRun :: "(string \<times> room) list" where
  "nanBidRun = snd (run unitCompare tick 0
     [(''p'', Join ''R'' ''Player''),
      (''p'', SetTopics [\<lparr>tid = ''A'', tname = ''Topic'', capacity = 1\<rparr>]),
      (''p'', Bid ''A'' (Some NaN))] ([], []))"

definition infBidRun :: "(string \<times> room) list" where
  "infBidRun = snd (run unitCompare tick 0
     [(''p'', Join ''R'' ''Player''),
      (''p'', SetTopics [\<lparr>tid = ''A'', tname = ''Topic'', capacity = 1\<rparr>]),
      (''p'', Bid ''A'' (Some PInf))] ([], []))"

definition hugeBidRun :: "(string \<times> room) list" where
  "hugeBidRun = snd (run unitCompare tick 0
     [(''p'', Join ''R'' ''Player''),
      (''p'', SetTopics [\<lparr>tid = ''A'', tname = ''Topic'', capacity = 1\<rparr>,
                         \<lparr>tid = ''B'', tname = ''Topic'', capacity = 1\<rparr>]),
      (''p'', Bid ''A'' (Some (Fin 1))),
      (''p'', Bid ''B'' (Some (Fin 9007199254740992)))] ([], []))"

definition nanClampRun :: "(string \<times> room) list" where
  "nanClampRun = snd (run unitCompare tick 0
     [(''p'', Join ''R'' ''Player''),
      (''p'', SetTopics [\<lparr>tid = ''A'', tname = ''Topic'', capacity = 1\<rparr>]),
      (''p'', Bid ''A'' (Some (Fin 5))),
      (''p'', SetConfig (Some NaN) None None)] ([], []))"




section \<open>Rounding\<close>

text \<open>
  The exponent found by \<open>expo\<close> is the binary exponent; rounding keeps the sign; whole
  numbers up to \<open>2^53\<close> are doubles, so sums and differences that stay in this range are
  exact.
\<close>

lemma pow2_powi: "pow2 i = 2 powi i"
  by (simp add: pow2_def power_int_def field_simps)

lemma pow2_pos: "0 < pow2 i"
  by (simp add: pow2_powi)

lemma pow2_add: "pow2 (i + j) = pow2 i * pow2 j"
  by (simp add: pow2_powi power_int_add)

lemma pow2_mono: "i \<le> j \<Longrightarrow> pow2 i \<le> pow2 j"
  by (simp add: pow2_powi power_int_increasing)

lemma pow2_less: "pow2 i < pow2 j \<Longrightarrow> i < j"
  using pow2_mono [of j i] by (cases "i < j") auto

lemma pow2_nat: "pow2 (int n) = 2 ^ n"
  by (simp add: pow2_def)

lemma expo_bounds:
  assumes "0 < q"
  shows "pow2 (expo q) \<le> q \<and> q < pow2 (expo q + 1)"
proof -
  obtain p d where pd: "quotient_of q = (p, d)" by (cases "quotient_of q")
  then have d: "0 < d" using quotient_of_denom_pos by blast
  have q: "q = of_int p / of_int d" using pd by (rule quotient_of_div)
  have p: "0 < p" using assms d q by (simp add: zero_less_divide_iff)
  let ?e = "bitlen p - bitlen d"
  have bp: "2 ^ nat (bitlen p - 1) \<le> p" "p < 2 ^ nat (bitlen p)"
    using bitlen_bounds [OF p] by auto
  have bd: "2 ^ nat (bitlen d - 1) \<le> d" "d < 2 ^ nat (bitlen d)"
    using bitlen_bounds [OF d] by auto
  have lp: "1 \<le> bitlen p" using p bitlen_eq_zero_iff [of p] bitlen_nonneg [of p] by linarith
  have ld: "1 \<le> bitlen d" using d bitlen_eq_zero_iff [of d] bitlen_nonneg [of d] by linarith
  have p1: "pow2 (bitlen p - 1) \<le> of_int p"
  proof -
    have "(of_int (2 ^ nat (bitlen p - 1)) :: rat) \<le> of_int p" using bp(1) by (simp only: of_int_le_iff)
    then show ?thesis using lp by (simp add: pow2_def)
  qed
  have p2: "of_int p < pow2 (bitlen p)"
  proof -
    have "(of_int p :: rat) < of_int (2 ^ nat (bitlen p))" using bp(2) by (simp only: of_int_less_iff)
    then show ?thesis using lp by (simp add: pow2_def)
  qed
  have d1: "pow2 (bitlen d - 1) \<le> of_int d"
  proof -
    have "(of_int (2 ^ nat (bitlen d - 1)) :: rat) \<le> of_int d" using bd(1) by (simp only: of_int_le_iff)
    then show ?thesis using ld by (simp add: pow2_def)
  qed
  have d2: "of_int d < pow2 (bitlen d)"
  proof -
    have "(of_int d :: rat) < of_int (2 ^ nat (bitlen d))" using bd(2) by (simp only: of_int_less_iff)
    then show ?thesis using ld by (simp add: pow2_def)
  qed
  have dpos: "(0 :: rat) < of_int d" using d by simp
  have lower: "pow2 (?e - 1) \<le> q"
  proof -
    have "pow2 (?e - 1) * of_int d \<le> pow2 (?e - 1) * pow2 (bitlen d)"
      using d2 pow2_pos [of "?e - 1"] by (simp add: mult_le_cancel_left_pos less_imp_le)
    also have "\<dots> = pow2 (bitlen p - 1)"
      using pow2_add [of "?e - 1" "bitlen d"] by (simp add: algebra_simps)
    also have "\<dots> \<le> of_int p" by (rule p1)
    finally show ?thesis using dpos by (simp add: q pos_le_divide_eq)
  qed
  have upper: "q < pow2 (?e + 1)"
  proof -
    have "of_int p < pow2 (bitlen p)" by (rule p2)
    also have "\<dots> = pow2 (?e + 1) * pow2 (bitlen d - 1)"
      using pow2_add [of "?e + 1" "bitlen d - 1"] by (simp add: algebra_simps)
    also have "\<dots> \<le> pow2 (?e + 1) * of_int d"
      using d1 pow2_pos [of "?e + 1"] by (simp add: mult_le_cancel_left_pos)
    finally show ?thesis using dpos by (simp add: q pos_divide_less_eq)
  qed
  show ?thesis
  proof (cases "pow2 ?e \<le> q")
    case True
    then show ?thesis using upper by (simp add: expo_def pd Let_def)
  next
    case False
    then show ?thesis using lower by (simp add: expo_def pd Let_def)
  qed
qed

lemma roundEven_int: "roundEven (of_int n) = n"
  by (simp add: roundEven_def)

lemma roundEven_ge: "\<lfloor>x\<rfloor> \<le> roundEven x"
  by (simp add: roundEven_def)

lemma pow2_strict: "i < j \<Longrightarrow> pow2 i < pow2 j"
  by (simp add: pow2_powi power_int_strict_increasing)

lemma expo_range:
  assumes "pow2 i \<le> q" and "q < pow2 j"
  shows "i \<le> expo q \<and> expo q < j"
proof -
  have q: "0 < q" using assms(1) pow2_pos [of i] by simp
  have b: "pow2 (expo q) \<le> q" "q < pow2 (expo q + 1)" using expo_bounds [OF q] by auto
  have "pow2 i < pow2 (expo q + 1)" using assms(1) b(2) by simp
  then have "i < expo q + 1" by (rule pow2_less)
  moreover have "pow2 (expo q) < pow2 j" using assms(2) b(1) by simp
  then have "expo q < j" by (rule pow2_less)
  ultimately show ?thesis by simp
qed

lemma roundMag_nonneg: "0 \<le> a \<Longrightarrow> roundMag a = Some r \<Longrightarrow> 0 \<le> r"
proof -
  assume a: "0 \<le> a" and r: "roundMag a = Some r"
  let ?u = "pow2 (max (expo a) (- 1022) - 52)"
  have "0 \<le> a / ?u" using a pow2_pos [of "max (expo a) (- 1022) - 52"] by simp
  then have "0 \<le> \<lfloor>a / ?u\<rfloor>" by simp
  then have "0 \<le> roundEven (a / ?u)" using roundEven_ge [of "a / ?u"] by linarith
  then have "0 \<le> of_int (roundEven (a / ?u)) * ?u"
    using pow2_pos [of "max (expo a) (- 1022) - 52"] by (simp add: less_imp_le)
  then show ?thesis using r by (auto simp: roundMag_def Let_def split: if_splits)
qed

lemma roundMag_pos: "1 \<le> a \<Longrightarrow> roundMag a = Some r \<Longrightarrow> 0 < r"
proof -
  assume a1: "1 \<le> a" and r: "roundMag a = Some r"
  have a: "0 < a" using a1 by simp
  have "pow2 0 \<le> a" using a1 by (simp add: pow2_def)
  moreover have "a < pow2 (expo a + 1)" using expo_bounds [OF a] by simp
  ultimately have e: "0 \<le> expo a" using expo_range [of 0 a "expo a + 1"] by simp
  let ?u = "pow2 (max (expo a) (- 1022) - 52)"
  have "?u \<le> pow2 (expo a)" using e by (simp add: max_def pow2_mono)
  also have "\<dots> \<le> a" using expo_bounds [OF a] by simp
  finally have "1 \<le> a / ?u" using pow2_pos [of "max (expo a) (- 1022) - 52"]
    by (simp add: pos_le_divide_eq)
  then have "1 \<le> \<lfloor>a / ?u\<rfloor>" by (simp add: le_floor_iff)
  then have "0 < roundEven (a / ?u)" using roundEven_ge [of "a / ?u"] by linarith
  then have "0 < of_int (roundEven (a / ?u)) * ?u"
    using pow2_pos [of "max (expo a) (- 1022) - 52"] by simp
  then show ?thesis using r by (auto simp: roundMag_def Let_def split: if_splits)
qed

lemma roundMag_exact:
  assumes "0 < a" and "expo a \<le> 1023"
    and "a / pow2 (max (expo a) (- 1022) - 52) = of_int m"
  shows "roundMag a = Some a"
proof -
  let ?e = "max (expo a) (- 1022)"
  have u: "0 < pow2 (?e - 52)" by (rule pow2_pos)
  have n: "roundEven (a / pow2 (?e - 52)) = m" by (simp only: assms(3) roundEven_int)
  have val: "a = of_int m * pow2 (?e - 52)"
    using assms(3) u by (simp add: field_simps)
  have le: "\<not> 1024 \<le> ?e" using assms(2) by simp
  have no: "\<not> (?e = 1023 \<and> m = 2 ^ 53)"
  proof
    assume h: "?e = 1023 \<and> m = 2 ^ 53"
    then have e: "expo a = 1023" by (simp add: max_def split: if_splits)
    have "a = 2 ^ 53 * pow2 971" using val h by simp
    also have "\<dots> = pow2 53 * pow2 971" by (simp add: pow2_def)
    also have "\<dots> = pow2 1024" using pow2_add [of 53 971] by simp
    finally have "a = pow2 1024" .
    moreover have "a < pow2 1024" using expo_bounds [OF assms(1)] e by simp
    ultimately show False by simp
  qed
  show ?thesis
    unfolding roundMag_def Let_def n using le no val by simp
qed

lemma roundMag_nat:
  assumes "0 < n" and "n \<le> 2 ^ 53"
  shows "roundMag (of_nat n) = Some (of_nat n)"
proof -
  let ?q = "of_nat n :: rat"
  have pos: "0 < ?q" using assms(1) by simp
  have lo: "pow2 0 \<le> ?q" using assms(1) by (simp add: pow2_def)
  show ?thesis
  proof (cases "n = 2 ^ 53")
    case True
    have q53: "?q = pow2 53" using True by (simp add: pow2_def)
    have "pow2 53 \<le> ?q" "?q < pow2 54" using pow2_strict [of 53 54] by (simp_all only: q53)
    then have e: "expo ?q = 53" using expo_range [of 53 ?q 54] by simp
    have "max (expo ?q) (- 1022) - 52 = 1" by (simp add: e)
    then have "?q / pow2 (max (expo ?q) (- 1022) - 52) = pow2 53 / pow2 1" by (simp only: q53)
    also have "\<dots> = of_int (2 ^ 52)" by (simp add: pow2_def)
    finally show ?thesis using roundMag_exact [OF pos, of "2 ^ 52"] e by simp
  next
    case False
    then have "n < 2 ^ 53" using assms by simp
    then have "?q < of_nat (2 ^ 53)" by (simp only: of_nat_less_iff)
    then have hi: "?q < pow2 53" by (simp add: pow2_def)
    have e: "0 \<le> expo ?q" "expo ?q < 53" using expo_range [OF lo hi] by auto
    let ?k = "nat (52 - expo ?q)"
    have m: "max (expo ?q) (- 1022) = expo ?q" using e by simp
    have u: "pow2 (expo ?q - 52) = 1 / 2 ^ ?k" using e by (simp add: pow2_def)
    have "?q / pow2 (max (expo ?q) (- 1022) - 52) = of_int (int n * 2 ^ ?k)"
      by (simp add: m u)
    then show ?thesis using roundMag_exact [OF pos, of "int n * 2 ^ ?k"] e by simp
  qed
qed

lemma rnd_nonneg: "0 \<le> q \<Longrightarrow> rnd q = PInf \<or> (\<exists>r. rnd q = Fin r \<and> 0 \<le> r)"
  using roundMag_nonneg [of q] by (auto simp: rnd_def split: option.splits)

lemma rnd_pos: "1 \<le> q \<Longrightarrow> rnd q = PInf \<or> (\<exists>r. rnd q = Fin r \<and> 0 < r)"
  using roundMag_pos [of q] by (auto simp: rnd_def split: option.splits)

lemma rnd_neg: "rnd (- q) = js_neg (rnd q)"
  by (auto simp: rnd_def split: option.splits)

lemma rnd_nat: "n \<le> 2 ^ 53 \<Longrightarrow> rnd (of_nat n) = Fin (of_nat n)"
  using roundMag_nat [of n] by (cases "n = 0") (simp_all add: rnd_def)

lemma rnd_int:
  assumes "\<bar>n\<bar> \<le> 2 ^ 53"
  shows "rnd (of_int n) = Fin (of_int n)"
proof (cases "0 \<le> n")
  case True
  then have "nat n \<le> 2 ^ 53" using assms by (simp add: nat_le_iff)
  then have "rnd (of_nat (nat n)) = Fin (of_nat (nat n))" by (rule rnd_nat)
  then show ?thesis using True by simp
next
  case False
  then have "nat (- n) \<le> 2 ^ 53" using assms by (simp add: nat_le_iff)
  then have "rnd (of_nat (nat (- n))) = Fin (of_nat (nat (- n)))" by (rule rnd_nat)
  then have "rnd (- of_int n) = Fin (- of_int n)" using False by simp
  then show ?thesis by (simp only: rnd_neg) (cases "rnd (of_int n)"; simp)
qed

lemma rnd_sign_int: "js_lt (Fin 0) (rnd (of_int d)) \<longleftrightarrow> 0 < d"
proof (cases "0 < d")
  case True
  then have "1 \<le> (of_int d :: rat)" by simp
  then show ?thesis using rnd_pos [of "of_int d"] True by auto
next
  case False
  then have "0 \<le> (of_int (- d) :: rat)" by simp
  then have "rnd (of_int (- d)) = PInf \<or> (\<exists>r. rnd (of_int (- d)) = Fin r \<and> 0 \<le> r)"
    by (rule rnd_nonneg)
  moreover have "rnd (of_int d) = js_neg (rnd (of_int (- d)))"
    using rnd_neg [of "of_int (- d)"] by simp
  ultimately show ?thesis using False by auto
qed

section \<open>Rejected bids\<close>



section \<open>Host handoff\<close>

text \<open>
  The room of a connection is the room named by its last \<open>join\<close> with a room code: every
  such \<open>join\<close> sets it, also one that is refused because the room is locked, and no other
  message changes it.
\<close>

lemma join_names_room:
  "roomId \<noteq> [] \<Longrightarrow> connRoom (fst (onMessage lc clk k c (Join roomId name) rooms)) = Some roomId"
  by (simp add: onMessage_def case_prod_beta)

lemma others_keep_room:
  "\<forall>roomId name. m \<noteq> Join roomId name \<Longrightarrow> fst (onMessage lc clk k c m rooms) = c"
  by (cases m) (simp_all add: onMessage_def case_prod_beta split: option.splits)




section \<open>Reading the winners\<close>

text \<open>
  Claim C4. A \<open>compute_winners\<close> message leaves the connection, the room store (so the
  bids, topics, players, configuration and lock flag of the room) and the clock as they
  are; sent by the host it broadcasts the result of \<open>computeWinners\<close>; sent again on the
  store it left, it broadcasts the same result; and the result of \<open>computeWinners\<close>
  is a function of the topics and the bids of the room alone: it reads no clock and no
  other field.
\<close>

theorem compute_winners_reads_only:
  assumes "connRoom c = Some roomId" and "map_of rooms roomId = Some room"
  shows "fst (onMessage lc clk k c ComputeWinners rooms) = c
   \<and> fst (snd (onMessage lc clk k c ComputeWinners rooms)) = rooms
   \<and> snd (snd (snd (onMessage lc clk k c ComputeWinners rooms))) = k
   \<and> (map_of (players room) (connId c) \<noteq> None \<and> hostId room = Some (connId c) \<longrightarrow>
        fst (snd (snd (onMessage lc clk k c ComputeWinners rooms)))
          = [WinnersMsg (computeWinners lc room)])
   \<and> fst (snd (snd (onMessage lc clk k' c ComputeWinners
                      (fst (snd (onMessage lc clk k c ComputeWinners rooms))))))
        = fst (snd (snd (onMessage lc clk k c ComputeWinners rooms)))
   \<and> (topics room' = topics room \<and> bids room' = bids room \<longrightarrow>
        computeWinners lc room' = computeWinners lc room)"
proof -
  have h: "handleInRoom lc clk j (connId c) ComputeWinners room
      = (room, if hostId room = Some (connId c) then [WinnersMsg (computeWinners lc room)] else [], j)"
    for j by (simp add: handleInRoom_def)
  have m: "onMessage lc clk j c ComputeWinners rooms
      = (c, rooms,
         if map_of (players room) (connId c) \<noteq> None \<and> hostId room = Some (connId c)
         then [WinnersMsg (computeWinners lc room)] else [], j)"
    for j using assms by (simp add: onMessage_def h update_triv)
  have d: "topics room' = topics room \<and> bids room' = bids room \<longrightarrow>
        computeWinners lc room' = computeWinners lc room"
    by (simp add: computeWinners_def finalAlloc_def buildBidLists_def)
  show ?thesis using d by (simp add: m)
qed

theorem compute_winners_reads_only_witness:
  "fst (snd (onMessage unitCompare tick 0 \<lparr>connId = ''h'', connRoom = Some ''R''\<rparr> ComputeWinners
            [(''R'', auctionRoom)])) = [(''R'', auctionRoom)]
   \<and> fst (snd (snd (onMessage unitCompare tick 0 \<lparr>connId = ''h'', connRoom = Some ''R''\<rparr>
            ComputeWinners [(''R'', auctionRoom)])))
        = [WinnersMsg (computeWinners unitCompare auctionRoom)]
   \<and> computeWinners unitCompare (auctionRoom\<lparr>locked := True\<rparr>)
        = computeWinners unitCompare auctionRoom"
proof -
  have p: "map_of (players auctionRoom) ''h'' \<noteq> None" and h: "hostId auctionRoom = Some ''h''"
    by (simp_all add: auctionRoom_def newRoom_def)
  show ?thesis
    using compute_winners_reads_only [of "\<lparr>connId = ''h'', connRoom = Some ''R''\<rparr>" "''R''"
        "[(''R'', auctionRoom)]" auctionRoom unitCompare tick 0 0 "auctionRoom\<lparr>locked := True\<rparr>"] p h
    by simp
qed

section \<open>The budget of \<open>set_config\<close>\<close>

lemma clampInt_range:
  "js_max (Fin 1) (js_min (Fin 10000) (Fin (of_int n))) = Fin (of_int (max 1 (min 10000 n)))"
  by (auto simp: js_min_def js_max_def max_def min_def)

lemma newBudget_range:
  assumes "x \<noteq> NaN"
  shows "\<exists>n. newBudget (Some x) old = Fin (of_int n) \<and> 1 \<le> n \<and> n \<le> 10000"
proof (cases x)
  case (Fin q)
  have "newBudget (Some x) old = Fin (of_int (max 1 (min 10000 \<lfloor>q\<rfloor>)))"
    using Fin by (simp add: newBudget_def clampInt_range)
  then show ?thesis by (intro exI[of _ "max 1 (min 10000 \<lfloor>q\<rfloor>)"]) simp
next
  case PInf
  then show ?thesis by (intro exI[of _ 10000]) (simp add: newBudget_def js_min_def js_max_def)
next
  case NInf
  then show ?thesis by (intro exI[of _ 1]) (simp add: newBudget_def js_min_def js_max_def)
next
  case NaN
  then show ?thesis using assms by simp
qed

lemma newBudget_retained:
  "1 \<le> n \<Longrightarrow> n \<le> 10000 \<Longrightarrow> newBudget None (Fin (of_int n)) = Fin (of_int n)"
  by (auto simp: newBudget_def js_min_def js_max_def)

text \<open>
  Claim C6. The budget after \<open>set_config\<close> is meant to be an integer between 1 and 10000
  for every value supplied. For a value that is not numeric it is not: the host of a
  fresh room sends \<open>set_config\<close> with the budget \<open>"abc"\<close>, \<open>Math.floor\<close> makes NaN of it,
  \<open>Math.min\<close> and \<open>Math.max\<close> pass NaN on, and the budget of the room is NaN.
\<close>

theorem set_config_nan_budget:
  "map (\<lambda>kr. budget (config (snd kr))) nanBudgetRun = [NaN]"
  unfolding nanBudgetRun_def by code_simp

section \<open>The sort\<close>


lemma mset_js_insert: "mset (js_insert cmp x ys) = add_mset x (mset ys)"
  by (induction ys) simp_all

lemma mset_js_sort: "mset (js_sort cmp xs) = mset xs"
  unfolding js_sort_def by (induction xs) (simp_all add: mset_js_insert)

lemma set_js_sort: "set (js_sort cmp xs) = set xs"
  using mset_js_sort [of cmp xs] by (metis set_mset_mset)

lemma length_js_sort: "length (js_sort cmp xs) = length xs"
  using mset_js_sort [of cmp xs] by (metis size_mset)

lemma sorted_js_insert:
  assumes "sorted_wrt R ys"
    and "\<And>y. y \<in> set ys \<Longrightarrow> js_lt (Fin 0) (cmp x y) \<Longrightarrow> R y x"
    and "\<And>y. y \<in> set ys \<Longrightarrow> \<not> js_lt (Fin 0) (cmp x y) \<Longrightarrow> R x y"
    and "\<And>y z. y \<in> set ys \<Longrightarrow> z \<in> set ys \<Longrightarrow> R x y \<Longrightarrow> R y z \<Longrightarrow> R x z"
  shows "sorted_wrt R (js_insert cmp x ys)"
  using assms
proof (induction ys)
  case Nil
  then show ?case by simp
next
  case (Cons y ys)
  show ?case
  proof (cases "js_lt (Fin 0) (cmp x y)")
    case True
    have "sorted_wrt R (js_insert cmp x ys)"
      using Cons by (intro Cons.IH) auto
    moreover have "\<forall>z\<in>set (js_insert cmp x ys). R y z"
    proof
      fix z assume "z \<in> set (js_insert cmp x ys)"
      then have "z = x \<or> z \<in> set ys"
        using mset_js_insert [of cmp x ys] by (metis insert_iff set_mset_add_mset_insert set_mset_mset)
      then show "R y z" using True Cons.prems(1,2) by auto
    qed
    ultimately show ?thesis using True by simp
  next
    case False
    then have xy: "R x y" using Cons.prems(3) by simp
    have "\<forall>z\<in>set ys. R x z"
    proof
      fix z assume z: "z \<in> set ys"
      then have "R y z" using Cons.prems(1) by simp
      then show "R x z" using Cons.prems(4) [of y z] xy z by simp
    qed
    then show ?thesis using False xy Cons.prems(1) by simp
  qed
qed

lemma sorted_js_sort:
  assumes gt: "\<And>x y. x \<in> set xs \<Longrightarrow> y \<in> set xs \<Longrightarrow> js_lt (Fin 0) (cmp x y) \<Longrightarrow> R y x"
    and le: "\<And>x y. x \<in> set xs \<Longrightarrow> y \<in> set xs \<Longrightarrow> \<not> js_lt (Fin 0) (cmp x y) \<Longrightarrow> R x y"
    and tr: "\<And>x y z. R x y \<Longrightarrow> R y z \<Longrightarrow> R x z"
  shows "sorted_wrt R (js_sort cmp xs)"
  using gt le
proof (induction xs)
  case Nil
  then show ?case by (simp add: js_sort_def)
next
  case (Cons x xs)
  have s: "sorted_wrt R (js_sort cmp xs)"
  proof (rule Cons.IH)
    fix a b assume "a \<in> set xs" "b \<in> set xs" "js_lt (Fin 0) (cmp a b)"
    then show "R b a" using Cons.prems(1) [of a b] by simp
  next
    fix a b assume "a \<in> set xs" "b \<in> set xs" "\<not> js_lt (Fin 0) (cmp a b)"
    then show "R a b" using Cons.prems(2) [of a b] by simp
  qed
  have "sorted_wrt R (js_insert cmp x (js_sort cmp xs))"
  proof (rule sorted_js_insert [OF s])
    fix y assume "y \<in> set (js_sort cmp xs)" "js_lt (Fin 0) (cmp x y)"
    then show "R y x" using Cons.prems(1) [of x y] by (simp add: set_js_sort)
  next
    fix y assume "y \<in> set (js_sort cmp xs)" "\<not> js_lt (Fin 0) (cmp x y)"
    then show "R x y" using Cons.prems(2) [of x y] by (simp add: set_js_sort)
  next
    fix y z assume "R x y" "R y z"
    then show "R x z" by (rule tr)
  qed
  then show ?case by (simp add: js_sort_def)
qed

section \<open>The clamp comparator on amounts that are not NaN\<close>

lemma js_lt_trans: "js_lt a b \<Longrightarrow> js_lt b c \<Longrightarrow> js_lt a c"
  by (cases a; cases b; cases c) auto

lemma js_lt_irrefl: "\<not> js_lt a a"
  by (cases a) auto

text \<open>An amount floored and clamped at 0 is NaN, \<open>+Infinity\<close> or a whole number from 0.\<close>

lemma floored_cases:
  "js_max (Fin 0) (js_floor x) = NaN \<or> js_max (Fin 0) (js_floor x) = PInf
     \<or> (\<exists>n. 0 \<le> n \<and> js_max (Fin 0) (js_floor x) = Fin (of_int n))"
proof (cases x)
  case (Fin q)
  show ?thesis
  proof (cases "0 < \<lfloor>q\<rfloor>")
    case True
    then have "js_max (Fin 0) (js_floor x) = Fin (of_int \<lfloor>q\<rfloor>)" by (simp add: Fin js_max_def)
    then show ?thesis using True by (metis less_imp_le)
  next
    case False
    then have "js_max (Fin 0) (js_floor x) = Fin (of_int 0)" by (simp add: Fin js_max_def)
    then show ?thesis by (metis order_refl)
  qed
qed (simp_all add: js_max_def)

lemma specEntries_amounts:
  assumes "e \<in> set (specEntries perTopic)"
  shows "eamount e = NaN \<or> eamount e = PInf \<or> (\<exists>n. 0 \<le> n \<and> eamount e = Fin (of_int n))"
proof -
  obtain x where "eamount e = js_max (Fin 0) (js_floor x)"
    using assms by (auto simp: specEntries_def)
  then show ?thesis using floored_cases [of x] by simp
qed

lemma sub_whole: "js_sub (Fin (of_int m)) (Fin (of_int n)) = rnd (of_int (m - n))"
  by (simp add: js_sub_def)

lemma clampCmp_gt:
  assumes "eamount a = PInf \<or> (\<exists>m. eamount a = Fin (of_int m))"
    and "eamount b = PInf \<or> (\<exists>n. eamount b = Fin (of_int n))"
  shows "js_lt (Fin 0) (clampCmp a b)
     \<longleftrightarrow> js_lt (eamount b) (eamount a) \<or> (eamount a = eamount b \<and> ets a < ets b)"
proof -
  consider (inf_inf) "eamount a = PInf" "eamount b = PInf"
    | (inf_fin) n where "eamount a = PInf" "eamount b = Fin (of_int n)"
    | (fin_inf) m where "eamount a = Fin (of_int m)" "eamount b = PInf"
    | (fin_fin) m n where "eamount a = Fin (of_int m)" "eamount b = Fin (of_int n)"
    using assms by blast
  then show ?thesis
  proof cases
    case inf_inf
    then show ?thesis by (simp add: clampCmp_def js_neq_def)
  next
    case inf_fin
    then show ?thesis by (simp add: clampCmp_def js_neq_def js_sub_def)
  next
    case fin_inf
    then show ?thesis by (simp add: clampCmp_def js_neq_def js_sub_def)
  next
    case fin_fin
    show ?thesis
    proof (cases "m = n")
      case True
      then show ?thesis using fin_fin by (simp add: clampCmp_def js_neq_def)
    next
      case False
      then have "clampCmp a b = rnd (of_int (m - n))"
        using fin_fin by (simp add: clampCmp_def js_neq_def sub_whole del: of_int_diff)
      then show ?thesis using fin_fin False by (simp add: rnd_sign_int del: of_int_diff)
    qed
  qed
qed

lemma js_lt_total: "a \<noteq> NaN \<Longrightarrow> b \<noteq> NaN \<Longrightarrow> js_lt a b \<or> a = b \<or> js_lt b a"
  by (cases a; cases b) auto

lemma trimmedBefore_trans:
  "trimmedBefore a b \<Longrightarrow> trimmedBefore b c \<Longrightarrow> trimmedBefore a c"
proof -
  assume ab: "trimmedBefore a b" and bc: "trimmedBefore b c"
  consider "js_lt (eamount a) (eamount b)" | "eamount a = eamount b" "ets b \<le> ets a"
    using ab unfolding trimmedBefore_def by blast
  then show ?thesis
  proof cases
    case 1
    consider "js_lt (eamount b) (eamount c)" | "eamount b = eamount c"
      using bc unfolding trimmedBefore_def by blast
    then show ?thesis
    proof cases
      case 1
      with \<open>js_lt (eamount a) (eamount b)\<close> have "js_lt (eamount a) (eamount c)"
        by (rule js_lt_trans)
      then show ?thesis by (simp add: trimmedBefore_def)
    next
      case 2
      with \<open>js_lt (eamount a) (eamount b)\<close> show ?thesis by (simp add: trimmedBefore_def)
    qed
  next
    case 2
    then show ?thesis using bc unfolding trimmedBefore_def by auto
  qed
qed

lemma sorted_clamp:
  assumes "\<forall>e\<in>set es. eamount e = PInf \<or> (\<exists>m. eamount e = Fin (of_int m))"
  shows "sorted_wrt trimmedBefore (js_sort clampCmp es)"
proof (rule sorted_js_sort)
  fix x y assume "x \<in> set es" "y \<in> set es" "js_lt (Fin 0) (clampCmp x y)"
  then show "trimmedBefore y x"
    using assms clampCmp_gt [of x y] by (auto simp: trimmedBefore_def)
next
  fix x y assume xy: "x \<in> set es" "y \<in> set es" "\<not> js_lt (Fin 0) (clampCmp x y)"
  have "eamount x \<noteq> NaN" "eamount y \<noteq> NaN" using assms xy(1,2) by auto
  then show "trimmedBefore x y"
    using assms xy clampCmp_gt [of x y] js_lt_total [of "eamount x" "eamount y"]
    by (auto simp: trimmedBefore_def)
next
  fix x y z assume "trimmedBefore x y" "trimmedBefore y z"
  then show "trimmedBefore x z" by (rule trimmedBefore_trans)
qed


section \<open>Entries, totals, the trimming loop and the write back\<close>

lemma update_fresh: "x \<notin> fst ` set al \<Longrightarrow> AList.update x v al = al @ [(x, v)]"
  by (induction al) auto

lemma stamp_Nil: "stamp clk k [] = []"
  by (simp add: stamp_def)

lemma stamp_Cons:
  "stamp clk k (e # es) = (topicId e, \<lparr>amount = eamount e, ts = clk k\<rparr>) # stamp clk (Suc k) es"
proof -
  have eq: "[k..<k + length (e # es)] = k # [Suc k..<Suc k + length es]"
    by (subst upt_rec) simp
  show ?thesis
    by (simp only: stamp_def eq list.map zip_Cons_Cons fst_conv snd_conv)
qed

lemma keys_stamp: "map fst (stamp clk k es) = map topicId es"
  by (induction es arbitrary: k) (simp_all add: stamp_Nil stamp_Cons)

lemma writeBack_stamp:
  "distinct (map topicId es) \<Longrightarrow> topicId ` set es \<inter> fst ` set acc = {}
     \<Longrightarrow> writeBack clk k es acc = acc @ stamp clk k es"
proof (induction es arbitrary: k acc)
  case Nil
  then show ?case by (simp add: stamp_Nil)
next
  case (Cons e es)
  have fresh: "topicId e \<notin> fst ` set acc" using Cons.prems(2) by auto
  have "writeBack clk (Suc k) es (acc @ [(topicId e, \<lparr>amount = eamount e, ts = clk k\<rparr>)])
      = (acc @ [(topicId e, \<lparr>amount = eamount e, ts = clk k\<rparr>)]) @ stamp clk (Suc k) es"
    using Cons.prems by (intro Cons.IH) auto
  then show ?case using fresh by (simp add: update_fresh stamp_Cons)
qed

lemma trimLoop_keys: "map topicId (trimLoop over es) = map topicId es"
  by (induction over es rule: trimLoop.induct) simp_all

lemma trimLoop_ets: "map ets (trimLoop over es) = map ets es"
  by (induction over es rule: trimLoop.induct) simp_all

lemma trimLoop_length: "length (trimLoop over es) = length es"
  using trimLoop_keys [of over es] by (metis length_map)

lemma toEntries_keys: "map topicId (toEntries perTopic) = map fst perTopic"
  by (simp add: toEntries_def comp_def)

lemma toEntries_spec: "toEntries perTopic = specEntries perTopic"
  by (simp add: toEntries_def specEntries_def case_prod_beta)

lemma foldl_addUp: "foldl (\<lambda>s e. js_add s (eamount e)) s es = addUp s (map eamount es)"
  by (induction es arbitrary: s) simp_all

lemma totalOf_spec: "totalOf es = specTotal es"
  by (simp add: totalOf_def specTotal_def foldl_addUp)

lemma foldl_add_NaN: "foldl (\<lambda>s e. js_add s (eamount e)) NaN es = NaN"
  by (induction es) simp_all

lemma js_add_NaN_right: "js_add x NaN = NaN"
  by (cases x) simp_all

lemma foldl_add_has_NaN:
  "e \<in> set es \<Longrightarrow> eamount e = NaN \<Longrightarrow> foldl (\<lambda>s e. js_add s (eamount e)) s0 es = NaN"
proof (induction es arbitrary: s0)
  case Nil
  then show ?case by simp
next
  case (Cons x xs)
  show ?case
  proof (cases "x = e")
    case True
    then show ?thesis using Cons.prems by (simp add: js_add_NaN_right foldl_add_NaN)
  next
    case False
    then show ?thesis using Cons by simp
  qed
qed

lemma totalOf_has_NaN: "e \<in> set es \<Longrightarrow> eamount e = NaN \<Longrightarrow> totalOf es = NaN"
  unfolding totalOf_def by (rule foldl_add_has_NaN)

text \<open>
  The loop and the walk of the specification agree while no amount and no overage is below
  zero: the \<open>break\<close> is taken exactly at the overage 0 and the \<open>continue\<close> exactly at
  the amount 0, and the remaining overage never falls below zero.
\<close>

lemma le_zero_iff: "\<not> js_lt x (Fin 0) \<Longrightarrow> js_le x (Fin 0) \<longleftrightarrow> x = Fin 0"
  by (cases x) auto

lemma overage_step:
  assumes "\<not> js_lt over (Fin 0)" and "\<not> js_lt a (Fin 0)"
  shows "\<not> js_lt (js_sub over (js_min a over)) (Fin 0)"
proof (cases over)
  case o: (Fin r)
  show ?thesis
  proof (cases a)
    case (Fin x)
    have "0 \<le> r + - min x r" by (simp add: min_def)
    then have "rnd (r + - min x r) = PInf \<or> (\<exists>s. rnd (r + - min x r) = Fin s \<and> 0 \<le> s)"
      by (rule rnd_nonneg)
    moreover have "js_sub over (js_min a over) = rnd (r + - min x r)"
      by (auto simp: o Fin js_sub_def js_min_def min_def)
    ultimately show ?thesis by auto
  next
    case PInf
    then show ?thesis using o by (simp add: js_sub_def js_min_def rnd_def)
  next
    case NInf
    then show ?thesis using assms(2) by simp
  next
    case NaN
    then show ?thesis using o by (simp add: js_sub_def js_min_def)
  qed
next
  case PInf
  then show ?thesis using assms(2) by (cases a) (simp_all add: js_sub_def js_min_def)
next
  case NInf
  then show ?thesis using assms(1) by simp
next
  case NaN
  then show ?thesis by (simp add: js_sub_def js_min_def)
qed

lemma trimLoop_specTrim:
  "\<not> js_lt over (Fin 0) \<Longrightarrow> \<forall>e\<in>set es. \<not> js_lt (eamount e) (Fin 0)
     \<Longrightarrow> trimLoop over es = specTrim over es"
proof (induction es arbitrary: over)
  case Nil
  then show ?case by simp
next
  case (Cons e es)
  have a: "\<not> js_lt (eamount e) (Fin 0)" and rest: "\<forall>e\<in>set es. \<not> js_lt (eamount e) (Fin 0)"
    using Cons.prems(2) by auto
  have o: "js_le over (Fin 0) \<longleftrightarrow> over = Fin 0" using Cons.prems(1) by (rule le_zero_iff)
  have z: "js_le (eamount e) (Fin 0) \<longleftrightarrow> eamount e = Fin 0" using a by (rule le_zero_iff)
  have skip: "trimLoop over es = specTrim over es" using Cons.prems(1) rest by (rule Cons.IH)
  have "\<not> js_lt (js_sub over (js_min (eamount e) over)) (Fin 0)"
    using Cons.prems(1) a by (rule overage_step)
  then have step: "trimLoop (js_sub over (js_min (eamount e) over)) es
      = specTrim (js_sub over (js_min (eamount e) over)) es"
    using rest by (rule Cons.IH)
  show ?case by (simp add: o z skip step)
qed

lemma overage_start:
  assumes "js_lt b t"
  shows "\<not> js_lt (js_sub t b) (Fin 0)"
proof (cases t)
  case t: (Fin x)
  show ?thesis
  proof (cases b)
    case (Fin y)
    then have "0 \<le> x + - y" using assms t by simp
    then have "rnd (x + - y) = PInf \<or> (\<exists>s. rnd (x + - y) = Fin s \<and> 0 \<le> s)" by (rule rnd_nonneg)
    then show ?thesis using t Fin by (auto simp: js_sub_def)
  qed (use assms t in \<open>simp_all add: js_sub_def\<close>)
next
  case PInf
  then show ?thesis using assms by (cases b) (simp_all add: js_sub_def)
next
  case NInf
  then show ?thesis using assms by (cases b) simp_all
next
  case NaN
  then show ?thesis using assms by (cases b) simp_all
qed

lemma js_lt_not_le: "js_lt a b \<Longrightarrow> \<not> js_le b a"
  by (cases a; cases b) auto

lemma bids_recomputeSpent: "bids (recomputeSpent room p) = bids room"
  by (simp add: recomputeSpent_def)

lemma clamp_over:
  assumes "map_of (bids room) p = Some perTopic" and "distinct (map fst perTopic)"
    and "\<not> js_le (totalOf (toEntries perTopic)) (budget (config room))"
  shows "clampBidsToBudget clk k room p =
     (recomputeSpent
        (room\<lparr>bids := AList.update p
            (stamp clk k (trimLoop (js_sub (totalOf (toEntries perTopic)) (budget (config room)))
                            (js_sort clampCmp (toEntries perTopic))))
            (bids room)\<rparr>) p,
      k + length perTopic)"
proof -
  let ?tr = "trimLoop (js_sub (totalOf (toEntries perTopic)) (budget (config room)))
               (js_sort clampCmp (toEntries perTopic))"
  have "mset (map topicId (js_sort clampCmp (toEntries perTopic))) = mset (map fst perTopic)"
    by (simp add: mset_js_sort toEntries_keys [symmetric])
  then have "distinct (map topicId (js_sort clampCmp (toEntries perTopic)))"
    using assms(2) by (metis mset_eq_imp_distinct_iff)
  then have "distinct (map topicId ?tr)" by (simp add: trimLoop_keys)
  then have wb: "writeBack clk k ?tr [] = stamp clk k ?tr"
    using writeBack_stamp [of ?tr "[]" clk k] by simp
  have len: "length ?tr = length perTopic"
    by (simp add: trimLoop_length length_js_sort toEntries_def)
  show ?thesis
    using assms(1,3) by (simp add: clampBidsToBudget_def Let_def wb len)
qed



text \<open>
  Claim C3. When the total of a participant's bids (each floored and clamped at 0) exceeds
  the budget, the clamp walks the entries in an order \<open>es\<close>: a rearrangement of the
  participant's stored bids (topic, amount, timestamp of the bid) that is ascending by
  amount and has, within equal amounts, the larger timestamp first. The walk subtracts
  \<open>min(amount, remaining overage)\<close> from each entry that is not zero until the overage,
  which starts as the total less the budget, is zero (\<open>specTrim\<close>). The new bid map holds
  the walked entries in that order, each with a clock reading taken by this call, and the
  call takes one reading for each entry. Sums and differences are those of the doubles.
\<close>

theorem clamp_trims_in_order:
  assumes "map_of (bids room) p = Some perTopic" and "distinct (map fst perTopic)"
    and "js_lt (budget (config room)) (specTotal (specEntries perTopic))"
  shows "\<exists>es. mset es = mset (specEntries perTopic) \<and> sorted_wrt trimmedBefore es
      \<and> map_of (bids (fst (clampBidsToBudget clk k room p))) p
           = Some (stamp clk k
               (specTrim (js_sub (specTotal (specEntries perTopic)) (budget (config room))) es))
      \<and> snd (clampBidsToBudget clk k room p) = k + length perTopic"
proof -
  let ?en = "specEntries perTopic"
  let ?es = "js_sort clampCmp ?en"
  let ?over = "js_sub (specTotal ?en) (budget (config room))"
  have en: "toEntries perTopic = ?en" by (rule toEntries_spec)
  have tot: "totalOf ?en = specTotal ?en" by (rule totalOf_spec)
  have above: "js_lt (budget (config room)) (totalOf ?en)" using assms(3) by (simp only: tot)
  have nn: "eamount e \<noteq> NaN" if e: "e \<in> set ?en" for e
  proof
    assume "eamount e = NaN"
    then have "totalOf ?en = NaN" using e by (rule totalOf_has_NaN [rotated])
    then show False using above by (cases "budget (config room)") simp_all
  qed
  have cnt: "\<forall>e\<in>set ?en. eamount e = PInf \<or> (\<exists>m. eamount e = Fin (of_int m))"
    using specEntries_amounts [of _ perTopic] nn by blast
  have sorted: "sorted_wrt trimmedBefore ?es" using cnt by (rule sorted_clamp)
  have pos: "\<forall>e\<in>set ?es. \<not> js_lt (eamount e) (Fin 0)"
  proof
    fix e assume "e \<in> set ?es"
    then have "e \<in> set ?en" by (simp add: set_js_sort)
    then show "\<not> js_lt (eamount e) (Fin 0)"
      using specEntries_amounts [of e perTopic] by auto
  qed
  have walk: "trimLoop ?over ?es = specTrim ?over ?es"
    using overage_start [OF assms(3)] pos by (rule trimLoop_specTrim)
  have clamp: "clampBidsToBudget clk k room p =
     (recomputeSpent
        (room\<lparr>bids := AList.update p
            (stamp clk k (trimLoop (js_sub (totalOf (toEntries perTopic)) (budget (config room)))
               (js_sort clampCmp (toEntries perTopic))))
            (bids room)\<rparr>) p,
      k + length perTopic)"
    using assms(1,2) js_lt_not_le [OF above [folded en]] by (rule clamp_over)
  show ?thesis
    using sorted
    by (intro exI [of _ ?es])
      (simp add: clamp en tot walk mset_js_sort bids_recomputeSpent update_conv')
qed

text \<open>
  With the budget 100 and the bids \<open>{X: 60, Y: 60, Z: 10}\<close>, \<open>Y\<close> placed after \<open>X\<close>: the
  walk takes \<open>Z\<close> first, then \<open>Y\<close>, the later of the two equal bids, and leaves \<open>X\<close>. With
  the budget 100 and the bids \<open>{X: 60, Y: 50}\<close> the result is \<open>{Y: 40, X: 60}\<close>.
\<close>

theorem clamp_trims_in_order_witness:
  "map_of (bids tieClampRoom) ''p''
      = Some [(''X'', \<lparr>amount = Fin 60, ts = 10\<rparr>), (''Y'', \<lparr>amount = Fin 60, ts = 20\<rparr>),
              (''Z'', \<lparr>amount = Fin 10, ts = 30\<rparr>)]
   \<and> js_lt (budget (config tieClampRoom)) (specTotal (specEntries
        [(''X'', \<lparr>amount = Fin 60, ts = 10\<rparr>), (''Y'', \<lparr>amount = Fin 60, ts = 20\<rparr>),
         (''Z'', \<lparr>amount = Fin 10, ts = 30\<rparr>)]))
   \<and> (\<exists>es. mset es = mset (specEntries
          [(''X'', \<lparr>amount = Fin 60, ts = 10\<rparr>), (''Y'', \<lparr>amount = Fin 60, ts = 20\<rparr>),
           (''Z'', \<lparr>amount = Fin 10, ts = 30\<rparr>)])
        \<and> sorted_wrt trimmedBefore es
        \<and> stamp tick 0 (specTrim (Fin 30) es)
            = [(''Z'', \<lparr>amount = Fin 0, ts = 1000\<rparr>), (''Y'', \<lparr>amount = Fin 40, ts = 1001\<rparr>),
               (''X'', \<lparr>amount = Fin 60, ts = 1002\<rparr>)])
   \<and> map_of (bids (fst (clampBidsToBudget tick 0 tieClampRoom ''p''))) ''p''
      = Some [(''Z'', \<lparr>amount = Fin 0, ts = 1000\<rparr>), (''Y'', \<lparr>amount = Fin 40, ts = 1001\<rparr>),
              (''X'', \<lparr>amount = Fin 60, ts = 1002\<rparr>)]
   \<and> snd (clampBidsToBudget tick 0 tieClampRoom ''p'') = 3
   \<and> map_of (bids (fst (clampBidsToBudget tick 0 clampRoom ''p''))) ''p''
      = Some [(''Y'', \<lparr>amount = Fin 40, ts = 1000\<rparr>), (''X'', \<lparr>amount = Fin 60, ts = 1001\<rparr>)]"
proof -
  let ?pt = "[(''X'', \<lparr>amount = Fin 60, ts = 10\<rparr>), (''Y'', \<lparr>amount = Fin 60, ts = 20\<rparr>),
              (''Z'', \<lparr>amount = Fin 10, ts = 30\<rparr>)]"
  let ?res = "[(''Z'', \<lparr>amount = Fin 0, ts = 1000\<rparr>), (''Y'', \<lparr>amount = Fin 40, ts = 1001\<rparr>),
               (''X'', \<lparr>amount = Fin 60, ts = 1002\<rparr>)]"
  have h1: "map_of (bids tieClampRoom) ''p'' = Some ?pt"
    by (simp add: tieClampRoom_def newRoom_def)
  have h2: "distinct (map fst ?pt)" by simp
  have h3: "js_lt (budget (config tieClampRoom)) (specTotal (specEntries ?pt))"
    by code_simp
  have ov: "js_sub (specTotal (specEntries ?pt)) (budget (config tieClampRoom)) = Fin 30"
    by code_simp
  have r: "map_of (bids (fst (clampBidsToBudget tick 0 tieClampRoom ''p''))) ''p'' = Some ?res"
    by code_simp
  have r2: "map_of (bids (fst (clampBidsToBudget tick 0 clampRoom ''p''))) ''p''
      = Some [(''Y'', \<lparr>amount = Fin 40, ts = 1000\<rparr>), (''X'', \<lparr>amount = Fin 60, ts = 1001\<rparr>)]"
    by code_simp
  obtain es where es: "mset es = mset (specEntries ?pt)" "sorted_wrt trimmedBefore es"
      "map_of (bids (fst (clampBidsToBudget tick 0 tieClampRoom ''p''))) ''p''
         = Some (stamp tick 0 (specTrim (Fin 30) es))"
      "snd (clampBidsToBudget tick 0 tieClampRoom ''p'') = 0 + length ?pt"
    using clamp_trims_in_order [OF h1 h2 h3, of tick 0] unfolding ov by blast
  have "stamp tick 0 (specTrim (Fin 30) es) = ?res" using es(3) r by simp
  then have ex: "\<exists>es. mset es = mset (specEntries ?pt) \<and> sorted_wrt trimmedBefore es
      \<and> stamp tick 0 (specTrim (Fin 30) es) = ?res"
    using es(1,2) by blast
  have n: "snd (clampBidsToBudget tick 0 tieClampRoom ''p'') = 3" using es(4) by simp
  show ?thesis using h1 h3 ex r n r2 by blast
qed

section \<open>Sets as lists\<close>

lemma set_sadd: "set (sadd x s) = insert x (set s)"
  by (auto simp: sadd_def)

lemma distinct_sadd: "distinct s \<Longrightarrow> distinct (sadd x s)"
  by (simp add: sadd_def)

lemma length_sadd: "length (sadd x s) \<le> Suc (length s)"
  by (simp add: sadd_def)

lemma length_sadd_new: "x \<notin> set s \<Longrightarrow> length (sadd x s) = Suc (length s)"
  by (simp add: sadd_def)

lemma set_sdelete: "set (sdelete x s) = set s - {x}"
  by (simp add: sdelete_def)

lemma length_sdelete: "length (sdelete x s) \<le> length s"
  by (simp add: sdelete_def)

lemma distinct_sdelete: "distinct s \<Longrightarrow> distinct (sdelete x s)"
  by (simp add: sdelete_def distinct_removeAll)

section \<open>The refill loop\<close>

lemma refillLoop_stop:
  "\<not> (length ws < cap \<and> idx < length list) \<Longrightarrow> refillLoop cap list idx ws wp ch = (idx, ws, wp, ch)"
  by (subst refillLoop.simps) auto

lemma refillLoop_skip:
  "length ws < cap \<Longrightarrow> idx < length list
     \<Longrightarrow> playerId (list ! idx) \<in> set ws \<or> playerId (list ! idx) \<in> set wp
     \<Longrightarrow> refillLoop cap list idx ws wp ch = refillLoop cap list (Suc idx) ws wp ch"
  by (subst refillLoop.simps) auto

lemma refillLoop_add:
  "length ws < cap \<Longrightarrow> idx < length list
     \<Longrightarrow> playerId (list ! idx) \<notin> set ws \<Longrightarrow> playerId (list ! idx) \<notin> set wp
     \<Longrightarrow> refillLoop cap list idx ws wp ch
       = refillLoop cap list (Suc idx) (sadd (playerId (list ! idx)) ws)
           (sadd (playerId (list ! idx)) wp) True"
  by (subst refillLoop.simps) auto

text \<open>
  An induction rule for the loop with one case for each way through its body.
\<close>

lemma refillLoop_cases [consumes 1, case_names stop skip add]:
  assumes r: "refillLoop cap list idx ws wp ch = res"
    and stop: "\<And>idx ws wp ch. \<not> (length ws < cap \<and> idx < length list) \<Longrightarrow> P idx ws wp ch (idx, ws, wp, ch)"
    and skip: "\<And>idx ws wp ch res. length ws < cap \<Longrightarrow> idx < length list
        \<Longrightarrow> playerId (list ! idx) \<in> set ws \<or> playerId (list ! idx) \<in> set wp
        \<Longrightarrow> P (Suc idx) ws wp ch res \<Longrightarrow> P idx ws wp ch res"
    and add: "\<And>idx ws wp ch res. length ws < cap \<Longrightarrow> idx < length list
        \<Longrightarrow> playerId (list ! idx) \<notin> set ws \<Longrightarrow> playerId (list ! idx) \<notin> set wp
        \<Longrightarrow> P (Suc idx) (sadd (playerId (list ! idx)) ws) (sadd (playerId (list ! idx)) wp) True res
        \<Longrightarrow> P idx ws wp ch res"
  shows "P idx ws wp ch res"
  using r stop skip add
proof (induction cap list idx ws wp ch arbitrary: res rule: refillLoop.induct)
  case (1 cap list idx ws wp ch)
  note r = "1.prems"(1) and stop = "1.prems"(2) and skip = "1.prems"(3) and add = "1.prems"(4)
  show ?case
  proof (cases "length ws < cap \<and> idx < length list")
    case False
    then have "res = (idx, ws, wp, ch)" using r by (simp add: refillLoop_stop)
    then show ?thesis using stop [OF False] by simp
  next
    case True
    let ?p = "playerId (list ! idx)"
    consider (a) "?p \<in> set ws" | (b) "?p \<notin> set ws" "?p \<in> set wp" | (c) "?p \<notin> set ws" "?p \<notin> set wp"
      by blast
    then show ?thesis
    proof cases
      case a
      then have "refillLoop cap list (Suc idx) ws wp ch = res"
        using r True by (simp add: refillLoop_skip)
      then have "P (Suc idx) ws wp ch res"
        by (rule "1.IH"(1) [OF True a _ stop skip add])
      then show ?thesis using skip [of ws idx wp ch res] True a by simp
    next
      case b
      then have "refillLoop cap list (Suc idx) ws wp ch = res"
        using r True by (simp add: refillLoop_skip)
      then have "P (Suc idx) ws wp ch res"
        by (rule "1.IH"(2) [OF True b _ stop skip add])
      then show ?thesis using skip [of ws idx wp ch res] True b by simp
    next
      case c
      then have "refillLoop cap list (Suc idx) (sadd ?p ws) (sadd ?p wp) True = res"
        using r True by (simp add: refillLoop_add)
      then have "P (Suc idx) (sadd ?p ws) (sadd ?p wp) True res"
        by (rule "1.IH"(3) [OF True c _ stop skip add])
      then show ?thesis using add [of ws idx wp res ch] True c by simp
    qed
  qed
qed

lemma refillLoop_mono:
  assumes "refillLoop cap list idx ws wp ch = (idx', ws', wp', ch')"
  shows "idx \<le> idx' \<and> set ws \<subseteq> set ws' \<and> set wp \<subseteq> set wp' \<and> length ws \<le> length ws'"
  using assms
proof (induction idx ws wp ch "(idx', ws', wp', ch')" rule: refillLoop_cases)
  case stop
  then show ?case by simp
next
  case skip
  then show ?case by simp
next
  case (add idx ws wp ch)
  then show ?case by (auto simp: set_sadd length_sadd_new)
qed

lemma refillLoop_new:
  assumes "refillLoop cap list idx ws wp ch = (idx', ws', wp', ch')"
  shows "set wp \<subseteq> set wp' \<and> set ws' \<subseteq> set ws \<union> (set wp' - set wp)
     \<and> set ws' \<subseteq> set ws \<union> playerId ` set list"
  using assms
proof (induction idx ws wp ch "(idx', ws', wp', ch')" rule: refillLoop_cases)
  case stop
  then show ?case by simp
next
  case skip
  then show ?case by simp
next
  case (add idx ws wp ch)
  let ?p = "playerId (list ! idx)"
  have 1: "insert ?p (set wp) \<subseteq> set wp'"
    and 2: "set ws' \<subseteq> insert ?p (set ws) \<union> (set wp' - insert ?p (set wp))"
    and 3: "set ws' \<subseteq> insert ?p (set ws) \<union> playerId ` set list"
    using add.hyps(5) by (simp_all add: set_sadd)
  have 4: "?p \<in> playerId ` set list" using add.hyps(2) by simp
  have 5: "?p \<notin> set wp" by (rule add.hyps(4))
  have a: "set wp \<subseteq> set wp'" using 1 by auto
  have b: "set ws' \<subseteq> set ws \<union> (set wp' - set wp)"
  proof
    fix x assume "x \<in> set ws'"
    then have "x = ?p \<or> x \<in> set ws \<or> x \<in> set wp' - insert ?p (set wp)" using 2 by auto
    then show "x \<in> set ws \<union> (set wp' - set wp)" using 1 5 by auto
  qed
  have c: "set ws' \<subseteq> set ws \<union> playerId ` set list" using 3 4 by auto
  show ?case using a b c by simp
qed

lemma refillLoop_bound:
  assumes "refillLoop cap list idx ws wp ch = (idx', ws', wp', ch')"
  shows "(length ws \<le> cap \<longrightarrow> length ws' \<le> cap) \<and> (cap \<le> length ws' \<or> length list \<le> idx')
     \<and> (distinct ws \<longrightarrow> distinct ws')"
  using assms
proof (induction idx ws wp ch "(idx', ws', wp', ch')" rule: refillLoop_cases)
  case stop
  then show ?case by auto
next
  case skip
  then show ?case by simp
next
  case (add idx ws wp ch)
  then show ?case by (auto simp: length_sadd_new distinct_sadd)
qed

section \<open>The refill of the topics\<close>

lemma refillTopic_full:
  "capacity t \<le> length (winners st (tid t)) \<Longrightarrow> refillTopic bl (st, wp, ch) t = (st, wp, ch)"
  by (simp add: refillTopic_def)

lemma refillTopic_open:
  assumes "\<not> capacity t \<le> length (winners st (tid t))"
    and "refillLoop (capacity t) (bl (tid t)) (nextIndex st (tid t)) (winners st (tid t)) wp ch
           = (idx', ws', wp', ch')"
  shows "refillTopic bl (st, wp, ch) t
     = (\<lparr>winners = (winners st)(tid t := ws'), nextIndex = (nextIndex st)(tid t := idx')\<rparr>, wp', ch')"
  using assms by (simp add: refillTopic_def)

lemma refillTopic_settled_id:
  assumes "capacity t \<le> length (winners st (tid t)) \<or> length (bl (tid t)) \<le> nextIndex st (tid t)"
  shows "refillTopic bl (st, wp, ch) t = (st, wp, ch)"
proof (cases "capacity t \<le> length (winners st (tid t))")
  case True
  then show ?thesis by (rule refillTopic_full)
next
  case False
  then have ex: "length (bl (tid t)) \<le> nextIndex st (tid t)" using assms by simp
  have "refillLoop (capacity t) (bl (tid t)) (nextIndex st (tid t)) (winners st (tid t)) wp ch
      = (nextIndex st (tid t), winners st (tid t), wp, ch)"
    using ex by (intro refillLoop_stop) simp
  then show ?thesis using False by (simp add: refillTopic_open)
qed

text \<open>What one refill keeps and what it establishes.\<close>

lemma refillTopic_step:
  assumes r: "refillTopic bl (st, wp, ch) t = (st', wp', ch')"
    and t: "t \<in> set tops"
    and c: "candidatesOnly bl (winners st)"
    and o: "oneTopicEach tops (winners st)"
    and w: "\<forall>u\<in>set tops. set (winners st (tid u)) \<subseteq> set wp"
  shows "candidatesOnly bl (winners st') \<and> oneTopicEach tops (winners st')
     \<and> (\<forall>u\<in>set tops. set (winners st' (tid u)) \<subseteq> set wp')
     \<and> (\<forall>i. length (winners st i) \<le> length (winners st' i) \<and> nextIndex st i \<le> nextIndex st' i)
     \<and> (capacity t \<le> length (winners st' (tid t)) \<or> length (bl (tid t)) \<le> nextIndex st' (tid t))
     \<and> (length (winners st (tid t)) \<le> capacity t \<longrightarrow> length (winners st' (tid t)) \<le> capacity t)
     \<and> (\<forall>i. i \<noteq> tid t \<longrightarrow> winners st' i = winners st i)
     \<and> ((\<forall>i. distinct (winners st i)) \<longrightarrow> (\<forall>i. distinct (winners st' i)))"
proof (cases "capacity t \<le> length (winners st (tid t))")
  case True
  then have "st' = st" "wp' = wp" using r by (simp_all add: refillTopic_full)
  then show ?thesis using c o w True by simp
next
  case False
  obtain idx1 ws1 wp1 ch1 where
    l: "refillLoop (capacity t) (bl (tid t)) (nextIndex st (tid t)) (winners st (tid t)) wp ch
          = (idx1, ws1, wp1, ch1)"
    using prod_cases4 by blast
  have st': "st' = \<lparr>winners = (winners st)(tid t := ws1), nextIndex = (nextIndex st)(tid t := idx1)\<rparr>"
    and wp': "wp' = wp1"
    using r refillTopic_open [of t st bl wp ch idx1 ws1 wp1 ch1] False l by simp_all
  note m = refillLoop_mono [OF l] and n = refillLoop_new [OF l] and b = refillLoop_bound [OF l]
  have W: "winners st' = (winners st)(tid t := ws1)" and N: "nextIndex st' = (nextIndex st)(tid t := idx1)"
    by (simp_all add: st')
  have 1: "candidatesOnly bl (winners st')"
    unfolding candidatesOnly_def
  proof
    fix i show "set (winners st' i) \<subseteq> playerId ` set (bl i)"
    proof (cases "i = tid t")
      case True
      have "set (winners st (tid t)) \<subseteq> playerId ` set (bl (tid t))"
        using c by (simp add: candidatesOnly_def)
      then show ?thesis using True n by (auto simp: W)
    next
      case False
      then show ?thesis using c by (simp add: W candidatesOnly_def)
    qed
  qed
  have fresh: "x \<notin> set (winners st (tid u))"
    if "x \<in> set ws1" "x \<notin> set (winners st (tid t))" "u \<in> set tops" for x u
  proof -
    have "x \<in> set wp1 - set wp" using that(1,2) n by auto
    then show ?thesis using w that(3) by auto
  qed
  have 2: "oneTopicEach tops (winners st')"
    unfolding oneTopicEach_def
  proof (intro ballI impI)
    fix t1 t2 assume t12: "t1 \<in> set tops" "t2 \<in> set tops" "tid t1 \<noteq> tid t2"
    have old: "set (winners st (tid t1)) \<inter> set (winners st (tid t2)) = {}"
      using o t12 by (simp add: oneTopicEach_def)
    show "set (winners st' (tid t1)) \<inter> set (winners st' (tid t2)) = {}"
    proof (rule ccontr)
      assume "set (winners st' (tid t1)) \<inter> set (winners st' (tid t2)) \<noteq> {}"
      then obtain x where x: "x \<in> set (winners st' (tid t1))" "x \<in> set (winners st' (tid t2))"
        by auto
      consider (a) "tid t1 = tid t" | (b) "tid t2 = tid t" | (c) "tid t1 \<noteq> tid t" "tid t2 \<noteq> tid t"
        by blast
      then show False
      proof cases
        case a
        then have x1: "x \<in> set ws1" and x2: "x \<in> set (winners st (tid t2))"
          using x t12(3) by (simp_all add: W)
        have "x \<in> set (winners st (tid t))" using fresh [OF x1 _ t12(2)] x2 by blast
        then show False using old a x2 by auto
      next
        case b
        then have x1: "x \<in> set ws1" and x2: "x \<in> set (winners st (tid t1))"
          using x t12(3) by (simp_all add: W)
        have "x \<in> set (winners st (tid t))" using fresh [OF x1 _ t12(1)] x2 by blast
        then show False using old b x2 by auto
      next
        case c
        then show False using x old by (auto simp: W)
      qed
    qed
  qed
  have 3: "\<forall>u\<in>set tops. set (winners st' (tid u)) \<subseteq> set wp'"
  proof
    fix u assume u: "u \<in> set tops"
    show "set (winners st' (tid u)) \<subseteq> set wp'"
    proof (cases "tid u = tid t")
      case True
      have "set (winners st (tid t)) \<subseteq> set wp" using w t by simp
      then show ?thesis using True n by (auto simp: W wp')
    next
      case False
      then show ?thesis using w u n by (auto simp: W wp')
    qed
  qed
  have 4: "\<forall>i. length (winners st i) \<le> length (winners st' i) \<and> nextIndex st i \<le> nextIndex st' i"
    using m by (simp add: W N)
  have 5: "capacity t \<le> length (winners st' (tid t)) \<or> length (bl (tid t)) \<le> nextIndex st' (tid t)"
    using b by (simp add: W N)
  have 6: "length (winners st (tid t)) \<le> capacity t \<longrightarrow> length (winners st' (tid t)) \<le> capacity t"
    using b by (simp add: W)
  have 7: "\<forall>i. i \<noteq> tid t \<longrightarrow> winners st' i = winners st i" by (simp add: W)
  have 8: "(\<forall>i. distinct (winners st i)) \<longrightarrow> (\<forall>i. distinct (winners st' i))"
    using b by (simp add: W)
  show ?thesis using 1 2 3 4 5 6 7 8 by blast
qed

lemma distinct_tid_inj:
  "distinct (map tid tops) \<Longrightarrow> t \<in> set tops \<Longrightarrow> u \<in> set tops \<Longrightarrow> tid u = tid t \<Longrightarrow> u = t"
  by (meson distinct_map inj_onD)

lemma refill_fold:
  assumes "foldl (refillTopic bl) (st, wp, ch) us = (st', wp', ch')"
    and "set us \<subseteq> set tops"
    and "candidatesOnly bl (winners st)"
    and "oneTopicEach tops (winners st)"
    and "\<forall>u\<in>set tops. set (winners st (tid u)) \<subseteq> set wp"
  shows "candidatesOnly bl (winners st') \<and> oneTopicEach tops (winners st')
     \<and> (\<forall>u\<in>set tops. set (winners st' (tid u)) \<subseteq> set wp')
     \<and> (\<forall>i. length (winners st i) \<le> length (winners st' i) \<and> nextIndex st i \<le> nextIndex st' i)
     \<and> (\<forall>t\<in>set us. capacity t \<le> length (winners st' (tid t))
            \<or> length (bl (tid t)) \<le> nextIndex st' (tid t))
     \<and> (distinct (map tid tops) \<and> withinCapacity tops (winners st)
            \<longrightarrow> withinCapacity tops (winners st'))
     \<and> ((\<forall>i. distinct (winners st i)) \<longrightarrow> (\<forall>i. distinct (winners st' i)))"
  using assms
proof (induction us arbitrary: st wp ch)
  case Nil
  then show ?case by simp
next
  case (Cons t us)
  obtain st1 wp1 ch1 where s1: "refillTopic bl (st, wp, ch) t = (st1, wp1, ch1)"
    using prod_cases3 by blast
  have t: "t \<in> set tops" and us: "set us \<subseteq> set tops" using Cons.prems(2) by simp_all
  note step = refillTopic_step [OF s1 t Cons.prems(3,4,5)]
  have rest: "foldl (refillTopic bl) (st1, wp1, ch1) us = (st', wp', ch')"
    using Cons.prems(1) s1 by simp
  have ih: "candidatesOnly bl (winners st') \<and> oneTopicEach tops (winners st')
     \<and> (\<forall>u\<in>set tops. set (winners st' (tid u)) \<subseteq> set wp')
     \<and> (\<forall>i. length (winners st1 i) \<le> length (winners st' i) \<and> nextIndex st1 i \<le> nextIndex st' i)
     \<and> (\<forall>t\<in>set us. capacity t \<le> length (winners st' (tid t))
            \<or> length (bl (tid t)) \<le> nextIndex st' (tid t))
     \<and> (distinct (map tid tops) \<and> withinCapacity tops (winners st1)
            \<longrightarrow> withinCapacity tops (winners st'))
     \<and> ((\<forall>i. distinct (winners st1 i)) \<longrightarrow> (\<forall>i. distinct (winners st' i)))"
    using step by (intro Cons.IH [OF rest us]) simp_all
  have mono: "\<forall>i. length (winners st i) \<le> length (winners st' i) \<and> nextIndex st i \<le> nextIndex st' i"
  proof
    fix i
    have "length (winners st i) \<le> length (winners st1 i)" "nextIndex st i \<le> nextIndex st1 i"
      using step by simp_all
    moreover have "length (winners st1 i) \<le> length (winners st' i)" "nextIndex st1 i \<le> nextIndex st' i"
      using ih by simp_all
    ultimately show "length (winners st i) \<le> length (winners st' i) \<and> nextIndex st i \<le> nextIndex st' i"
      by linarith
  qed
  have head: "capacity t \<le> length (winners st' (tid t)) \<or> length (bl (tid t)) \<le> nextIndex st' (tid t)"
  proof -
    have "capacity t \<le> length (winners st1 (tid t)) \<or> length (bl (tid t)) \<le> nextIndex st1 (tid t)"
      using step by simp
    moreover have "length (winners st1 (tid t)) \<le> length (winners st' (tid t))"
      "nextIndex st1 (tid t) \<le> nextIndex st' (tid t)"
      using ih by simp_all
    ultimately show ?thesis by linarith
  qed
  have cap1: "withinCapacity tops (winners st1)"
    if d: "distinct (map tid tops)" and c: "withinCapacity tops (winners st)"
    unfolding withinCapacity_def
  proof
    fix u assume u: "u \<in> set tops"
    show "length (winners st1 (tid u)) \<le> capacity u"
    proof (cases "tid u = tid t")
      case True
      then have "u = t" using d t u by (rule distinct_tid_inj [rotated 3])
      then show ?thesis using step c t by (simp add: withinCapacity_def)
    next
      case False
      then have "winners st1 (tid u) = winners st (tid u)" using step by simp
      then show ?thesis using c u by (simp add: withinCapacity_def)
    qed
  qed
  have dist: "(\<forall>i. distinct (winners st i)) \<longrightarrow> (\<forall>i. distinct (winners st' i))"
    using step ih by blast
  show ?case using ih mono head cap1 dist by simp
qed

lemma refill_fold_id:
  assumes "\<forall>t\<in>set us. capacity t \<le> length (winners st (tid t))
      \<or> length (bl (tid t)) \<le> nextIndex st (tid t)"
  shows "foldl (refillTopic bl) (st, wp, ch) us = (st, wp, ch)"
  using assms by (induction us) (simp_all add: refillTopic_settled_id)

section \<open>Removing a player from the topics they do not keep\<close>

lemma dropFrom_shrinks:
  "set (fst (dropFrom pk wc t) i) \<subseteq> set (fst wc i)
   \<and> length (fst (dropFrom pk wc t) i) \<le> length (fst wc i)
   \<and> (distinct (fst wc i) \<longrightarrow> distinct (fst (dropFrom pk wc t) i))"
  by (auto simp: dropFrom_def set_sdelete length_sdelete distinct_sdelete)

lemma dropPlayer_shrinks:
  "set (fst (dropPlayer tops wc pk) i) \<subseteq> set (fst wc i)
   \<and> length (fst (dropPlayer tops wc pk) i) \<le> length (fst wc i)
   \<and> (distinct (fst wc i) \<longrightarrow> distinct (fst (dropPlayer tops wc pk) i))"
  unfolding dropPlayer_def
proof (induction tops arbitrary: wc)
  case Nil
  then show ?case by simp
next
  case (Cons t tops)
  have a: "set (fst (dropFrom pk wc t) i) \<subseteq> set (fst wc i)"
    and b: "length (fst (dropFrom pk wc t) i) \<le> length (fst wc i)"
    and c: "distinct (fst wc i) \<longrightarrow> distinct (fst (dropFrom pk wc t) i)"
    using dropFrom_shrinks [of pk wc t i] by simp_all
  show ?case using Cons.IH [of "dropFrom pk wc t"] a b c by (simp, meson order_trans)
qed

lemma removeLosers_shrinks:
  "set (fst (removeLosers tops keep wc) i) \<subseteq> set (fst wc i)
   \<and> length (fst (removeLosers tops keep wc) i) \<le> length (fst wc i)
   \<and> (distinct (fst wc i) \<longrightarrow> distinct (fst (removeLosers tops keep wc) i))"
  unfolding removeLosers_def
proof (induction keep arbitrary: wc)
  case Nil
  then show ?case by simp
next
  case (Cons pk keep)
  have a: "set (fst (dropPlayer tops wc pk) i) \<subseteq> set (fst wc i)"
    and b: "length (fst (dropPlayer tops wc pk) i) \<le> length (fst wc i)"
    and c: "distinct (fst wc i) \<longrightarrow> distinct (fst (dropPlayer tops wc pk) i)"
    using dropPlayer_shrinks [of tops wc pk i] by simp_all
  show ?case using Cons.IH [of "dropPlayer tops wc pk"] a b c by (simp, meson order_trans)
qed

lemma dropFrom_gone:
  "tid t \<noteq> snd pk \<Longrightarrow> fst pk \<notin> set (fst (dropFrom pk wc t) (tid t))"
  by (simp add: dropFrom_def set_sdelete)

lemma dropPlayer_gone:
  "t \<in> set tops \<Longrightarrow> tid t \<noteq> snd pk \<Longrightarrow> fst pk \<notin> set (fst (dropPlayer tops wc pk) (tid t))"
  unfolding dropPlayer_def
proof (induction tops arbitrary: wc)
  case Nil
  then show ?case by simp
next
  case (Cons u tops)
  show ?case
  proof (cases "t = u")
    case True
    have "fst pk \<notin> set (fst (dropFrom pk wc u) (tid t))"
      using True Cons.prems(2) by (simp add: dropFrom_gone)
    moreover have "set (fst (foldl (dropFrom pk) (dropFrom pk wc u) tops) (tid t))
        \<subseteq> set (fst (dropFrom pk wc u) (tid t))"
      using dropPlayer_shrinks [of tops "dropFrom pk wc u" pk "tid t"] by (simp add: dropPlayer_def)
    ultimately show ?thesis by auto
  next
    case False
    then show ?thesis using Cons by simp
  qed
qed

lemma removeLosers_gone:
  "pk \<in> set keep \<Longrightarrow> t \<in> set tops \<Longrightarrow> tid t \<noteq> snd pk
     \<Longrightarrow> fst pk \<notin> set (fst (removeLosers tops keep wc) (tid t))"
  unfolding removeLosers_def
proof (induction keep arbitrary: wc)
  case Nil
  then show ?case by simp
next
  case (Cons qk keep)
  show ?case
  proof (cases "pk = qk")
    case True
    have "fst pk \<notin> set (fst (dropPlayer tops wc qk) (tid t))"
      using True Cons.prems(2,3) by (simp add: dropPlayer_gone)
    moreover have "set (fst (foldl (dropPlayer tops) (dropPlayer tops wc qk) keep) (tid t))
        \<subseteq> set (fst (dropPlayer tops wc qk) (tid t))"
      using removeLosers_shrinks [of tops keep "dropPlayer tops wc qk" "tid t"]
      by (simp add: removeLosers_def)
    ultimately show ?thesis by auto
  next
    case False
    then show ?thesis using Cons by simp
  qed
qed

lemma dropPlayer_id:
  "\<forall>t\<in>set tops. fst pk \<in> set (fst wc (tid t)) \<longrightarrow> tid t = snd pk \<Longrightarrow> dropPlayer tops wc pk = wc"
  unfolding dropPlayer_def by (induction tops) (simp_all add: dropFrom_def)

lemma removeLosers_id:
  "\<forall>pk\<in>set keep. \<forall>t\<in>set tops. fst pk \<in> set (fst wc (tid t)) \<longrightarrow> tid t = snd pk
     \<Longrightarrow> removeLosers tops keep wc = wc"
  unfolding removeLosers_def by (induction keep) (simp_all add: dropPlayer_id)

section \<open>The wins of the players and the topic each keeps\<close>

lemma winsOf_addWin:
  "winsOf (addWin pw q w) p = (if p = q then winsOf pw p @ [w] else winsOf pw p)"
  by (simp add: winsOf_def addWin_def update_conv')

lemma set_update_subset: "set (AList.update x v al) \<subseteq> insert (x, v) (set al)"
  by (induction al) auto

lemma entries_addWin:
  assumes "(p, ws) \<in> set (addWin pw q w)"
  shows "(p, ws) \<in> set pw \<or> (p = q \<and> ws = winsOf pw q @ [w])"
  using assms set_update_subset [of q "winsOf pw q @ [w]" pw]
  by (auto simp: addWin_def winsOf_def)

lemma winsOf_entry: "winsOf pw p \<noteq> [] \<Longrightarrow> (p, winsOf pw p) \<in> set pw"
  by (auto simp: winsOf_def split: option.splits dest: map_of_SomeD)

lemma find_candidate:
  "find (\<lambda>b. playerId b = p) list = None \<longleftrightarrow> p \<notin> playerId ` set list"
  by (auto simp: find_None_iff)

text \<open>Every win recorded for a player names a topic whose winner set holds the player.\<close>

lemma winsOfTopic_sound:
  assumes "\<forall>(p, ws)\<in>set pw. \<forall>w\<in>set ws. \<exists>u\<in>set tops. topicId w = tid u \<and> p \<in> set (W (tid u))"
    and "t \<in> set tops"
  shows "\<forall>(p, ws)\<in>set (winsOfTopic bl W pw t).
           \<forall>w\<in>set ws. \<exists>u\<in>set tops. topicId w = tid u \<and> p \<in> set (W (tid u))"
proof -
  let ?good = "\<lambda>pw. \<forall>(p, ws)\<in>set pw. \<forall>w\<in>set ws. \<exists>u\<in>set tops. topicId w = tid u \<and> p \<in> set (W (tid u))"
  let ?step = "\<lambda>pw p. case find (\<lambda>b. playerId b = p) (bl (tid t)) of
                      None \<Rightarrow> pw
                    | Some b \<Rightarrow> addWin pw p \<lparr>topicId = tid t, eamount = camount b, ets = cts b\<rparr>"
  have "?good (foldl ?step pw ps)" if "?good pw" "set ps \<subseteq> set (W (tid t))" for ps pw
    using that
  proof (induction ps arbitrary: pw)
    case Nil
    then show ?case by simp
  next
    case (Cons q ps)
    have q: "q \<in> set (W (tid t))" using Cons.prems(2) by simp
    have "?good (?step pw q)"
    proof (cases "find (\<lambda>b. playerId b = q) (bl (tid t))")
      case None
      then show ?thesis using Cons.prems(1) by simp
    next
      case (Some b)
      let ?w = "\<lparr>topicId = tid t, eamount = camount b, ets = cts b\<rparr>"
      have "\<forall>w\<in>set ws. \<exists>u\<in>set tops. topicId w = tid u \<and> p \<in> set (W (tid u))"
        if e: "(p, ws) \<in> set (addWin pw q ?w)" for p ws
      proof (cases "(p, ws) \<in> set pw")
        case True
        then show ?thesis using Cons.prems(1) by auto
      next
        case False
        then have pq: "p = q" and ws: "ws = winsOf pw q @ [?w]" using entries_addWin [OF e] by simp_all
        have old: "\<forall>w\<in>set (winsOf pw q). \<exists>u\<in>set tops. topicId w = tid u \<and> q \<in> set (W (tid u))"
        proof (cases "winsOf pw q = []")
          case True
          then show ?thesis by simp
        next
          case False
          then have "(q, winsOf pw q) \<in> set pw" by (rule winsOf_entry)
          then show ?thesis using Cons.prems(1) by auto
        qed
        show ?thesis using old pq ws q assms(2) by auto
      qed
      then show ?thesis using Some by auto
    qed
    then show ?case using Cons.IH [of "?step pw q"] Cons.prems(2) by simp
  qed
  then show ?thesis using assms(1) unfolding winsOfTopic_def by blast
qed

lemma buildPlayerWins_sound:
  assumes "(p, ws) \<in> set (buildPlayerWins bl W tops)" and "w \<in> set ws"
  shows "\<exists>u\<in>set tops. topicId w = tid u \<and> p \<in> set (W (tid u))"
proof -
  let ?good = "\<lambda>pw. \<forall>(p, ws)\<in>set pw. \<forall>w\<in>set ws. \<exists>u\<in>set tops. topicId w = tid u \<and> p \<in> set (W (tid u))"
  have "?good (foldl (winsOfTopic bl W) pw us)" if "?good pw" "set us \<subseteq> set tops" for pw us
    using that
  proof (induction us arbitrary: pw)
    case Nil
    then show ?case by simp
  next
    case (Cons t us)
    have "?good (winsOfTopic bl W pw t)"
      using Cons.prems by (intro winsOfTopic_sound) simp_all
    then show ?case using Cons.IH [of "winsOfTopic bl W pw t"] Cons.prems(2) by simp
  qed
  from this [of "[]" tops] have "?good (buildPlayerWins bl W tops)"
    by (simp add: buildPlayerWins_def)
  then show ?thesis using assms by auto
qed

text \<open>A player who is a candidate and a winner of two topics has two wins or more.\<close>

lemma winsOfTopic_count:
  "length (winsOf pw p)
     + (if p \<in> set (W (tid t)) \<and> p \<in> playerId ` set (bl (tid t)) then 1 else 0)
   \<le> length (winsOf (winsOfTopic bl W pw t) p)"
proof -
  let ?step = "\<lambda>pw p. case find (\<lambda>b. playerId b = p) (bl (tid t)) of
                      None \<Rightarrow> pw
                    | Some b \<Rightarrow> addWin pw p \<lparr>topicId = tid t, eamount = camount b, ets = cts b\<rparr>"
  have mono: "length (winsOf pw p) \<le> length (winsOf (?step pw q) p)" for pw q
    by (cases "find (\<lambda>b. playerId b = q) (bl (tid t))") (simp_all add: winsOf_addWin)
  have hit: "Suc (length (winsOf pw p)) \<le> length (winsOf (?step pw p) p)"
    if "p \<in> playerId ` set (bl (tid t))" for pw
  proof (cases "find (\<lambda>b. playerId b = p) (bl (tid t))")
    case None
    then show ?thesis using that by (simp add: find_candidate)
  next
    case (Some b)
    then show ?thesis by (simp add: winsOf_addWin)
  qed
  have "length (winsOf pw p) + (if p \<in> set ps \<and> p \<in> playerId ` set (bl (tid t)) then 1 else 0)
      \<le> length (winsOf (foldl ?step pw ps) p)" for ps pw
  proof (induction ps arbitrary: pw)
    case Nil
    then show ?case by simp
  next
    case (Cons q ps)
    have ih: "length (winsOf (?step pw q) p)
        + (if p \<in> set ps \<and> p \<in> playerId ` set (bl (tid t)) then 1 else 0)
        \<le> length (winsOf (foldl ?step (?step pw q) ps) p)"
      by (rule Cons.IH)
    show ?case
    proof (cases "p = q \<and> p \<in> playerId ` set (bl (tid t))")
      case True
      then have qp: "q = p" by simp
      have "Suc (length (winsOf pw p)) \<le> length (winsOf (?step pw p) p)" using hit True by blast
      then show ?thesis using ih unfolding qp by simp
    next
      case False
      have "length (winsOf pw p) \<le> length (winsOf (?step pw q) p)" by (rule mono)
      then show ?thesis using ih False by auto
    qed
  qed
  then show ?thesis unfolding winsOfTopic_def by blast
qed

lemma buildPlayerWins_count:
  "length (filter (\<lambda>t. p \<in> set (W (tid t)) \<and> p \<in> playerId ` set (bl (tid t))) tops)
     \<le> length (winsOf (buildPlayerWins bl W tops) p)"
proof -
  let ?P = "\<lambda>t. p \<in> set (W (tid t)) \<and> p \<in> playerId ` set (bl (tid t))"
  have "length (winsOf pw p) + length (filter ?P us)
      \<le> length (winsOf (foldl (winsOfTopic bl W) pw us) p)" for pw us
  proof (induction us arbitrary: pw)
    case Nil
    then show ?case by simp
  next
    case (Cons t us)
    have "length (winsOf pw p) + (if ?P t then 1 else 0) \<le> length (winsOf (winsOfTopic bl W pw t) p)"
      by (rule winsOfTopic_count)
    moreover have "length (winsOf (winsOfTopic bl W pw t) p) + length (filter ?P us)
        \<le> length (winsOf (foldl (winsOfTopic bl W) (winsOfTopic bl W pw t) us) p)"
      by (rule Cons.IH)
    ultimately show ?case by (cases "?P t") auto
  qed
  from this [of "[]" tops] show ?thesis by (simp add: buildPlayerWins_def winsOf_def)
qed

lemma two_in_filter:
  assumes "a \<in> set xs" "b \<in> set xs" "a \<noteq> b" "P a" "P b"
  shows "2 \<le> length (filter P xs)"
proof -
  have "{a, b} \<subseteq> set (filter P xs)" using assms by simp
  then have "card {a, b} \<le> card (set (filter P xs))" by (intro card_mono) simp_all
  moreover have "card (set (filter P xs)) \<le> length (filter P xs)" by (rule card_length)
  moreover have "card {a, b} = 2" using assms(3) by simp
  ultimately show ?thesis by linarith
qed

lemma keep_sound:
  assumes "(p, k) \<in> set (keepByPlayer lc (buildPlayerWins bl W tops))"
  shows "\<exists>u\<in>set tops. k = tid u \<and> p \<in> set (W (tid u))"
proof -
  from assms obtain q ws where e: "(q, ws) \<in> set (buildPlayerWins bl W tops)"
    and k: "(p, k) \<in> set (keepOf lc (q, ws))"
    by (auto simp: keepByPlayer_def)
  from k have len: "\<not> length ws \<le> 1" by (auto simp: keepOf_def split: if_splits)
  obtain w rest where s: "js_sort (winCmp lc) ws = w # rest"
    using len length_js_sort [of "winCmp lc" ws] by (cases "js_sort (winCmp lc) ws") auto
  have "keepOf lc (q, ws) = [(q, topicId w)]" using len s by (simp add: keepOf_def)
  then have pk: "p = q" "k = topicId w" using k by simp_all
  have "w \<in> set (js_sort (winCmp lc) ws)" using s by simp
  then have "w \<in> set ws" by (simp add: set_js_sort)
  then show ?thesis using buildPlayerWins_sound [OF e] pk by auto
qed

lemma keep_complete:
  assumes "t1 \<in> set tops" "t2 \<in> set tops" "tid t1 \<noteq> tid t2"
    and "p \<in> set (W (tid t1))" "p \<in> set (W (tid t2))"
    and "candidatesOnly bl W"
  shows "\<exists>k. (p, k) \<in> set (keepByPlayer lc (buildPlayerWins bl W tops))"
proof -
  let ?pw = "buildPlayerWins bl W tops"
  let ?P = "\<lambda>t. p \<in> set (W (tid t)) \<and> p \<in> playerId ` set (bl (tid t))"
  have "?P t1" "?P t2" using assms(4,5,6) by (auto simp: candidatesOnly_def)
  moreover have "t1 \<noteq> t2" using assms(3) by auto
  ultimately have "2 \<le> length (filter ?P tops)"
    using assms(1,2) two_in_filter [of t1 tops t2 ?P] by simp
  then have len: "2 \<le> length (winsOf ?pw p)"
    using buildPlayerWins_count [of p W bl tops] by linarith
  then have e: "(p, winsOf ?pw p) \<in> set ?pw" by (intro winsOf_entry) auto
  have "length (js_sort (winCmp lc) (winsOf ?pw p)) = length (winsOf ?pw p)"
    by (rule length_js_sort)
  then obtain w rest where "js_sort (winCmp lc) (winsOf ?pw p) = w # rest"
    using len by (cases "js_sort (winCmp lc) (winsOf ?pw p)") auto
  then have "keepOf lc (p, winsOf ?pw p) = [(p, topicId w)]"
    using len by (simp add: keepOf_def)
  then have "(p, topicId w) \<in> set (keepByPlayer lc ?pw)"
    using e by (force simp: keepByPlayer_def)
  then show ?thesis by blast
qed

section \<open>One pass of the resolution loop\<close>

lemma set_fold_sadd: "set (foldl (\<lambda>wp pid. sadd pid wp) wp ps) = set wp \<union> set ps"
  by (induction ps arbitrary: wp) (auto simp: set_sadd)

lemma set_winningPlayers: "set (winningPlayers w tops) = (\<Union>t\<in>set tops. set (w (tid t)))"
proof -
  have "set (foldl (\<lambda>wp t. foldl (\<lambda>wp pid. sadd pid wp) wp (w (tid t))) wp us)
      = set wp \<union> (\<Union>t\<in>set us. set (w (tid t)))" for wp us
    by (induction us arbitrary: wp) (auto simp: set_fold_sadd)
  from this [of "[]" tops] show ?thesis by (simp add: winningPlayers_def)
qed

lemma resolvePass_establishes:
  assumes c: "candidatesOnly bl (winners st)"
  shows "candidatesOnly bl (winners (fst (resolvePass lc bl tops st)))
     \<and> oneTopicEach tops (winners (fst (resolvePass lc bl tops st)))
     \<and> settled bl tops (fst (resolvePass lc bl tops st))
     \<and> (distinct (map tid tops) \<and> withinCapacity tops (winners st)
           \<longrightarrow> withinCapacity tops (winners (fst (resolvePass lc bl tops st))))
     \<and> ((\<forall>i. distinct (winners st i))
           \<longrightarrow> (\<forall>i. distinct (winners (fst (resolvePass lc bl tops st)) i)))"
proof -
  let ?keep = "keepByPlayer lc (buildPlayerWins bl (winners st) tops)"
  let ?wc = "removeLosers tops ?keep (winners st, False)"
  let ?W1 = "fst ?wc"
  let ?st1 = "st\<lparr>winners := ?W1\<rparr>"
  let ?wp = "winningPlayers ?W1 tops"
  obtain st' wp' ch' where f: "foldl (refillTopic bl) (?st1, ?wp, snd ?wc) tops = (st', wp', ch')"
    using prod_cases3 by blast
  have res: "fst (resolvePass lc bl tops st) = st'"
    using f by (simp add: resolvePass_def Let_def)
  note sh = removeLosers_shrinks [of tops ?keep "(winners st, False)"]
  have sub: "set (?W1 i) \<subseteq> set (winners st i)" and len: "length (?W1 i) \<le> length (winners st i)"
    and dis: "distinct (winners st i) \<longrightarrow> distinct (?W1 i)" for i
    using sh [of i] by simp_all
  have c1: "candidatesOnly bl (winners ?st1)"
    using c sub unfolding candidatesOnly_def by (simp, blast)
  have o1: "oneTopicEach tops (winners ?st1)"
    unfolding oneTopicEach_def
  proof (intro ballI impI)
    fix t1 t2 assume t: "t1 \<in> set tops" "t2 \<in> set tops" "tid t1 \<noteq> tid t2"
    show "set (winners ?st1 (tid t1)) \<inter> set (winners ?st1 (tid t2)) = {}"
    proof (rule ccontr)
      assume "set (winners ?st1 (tid t1)) \<inter> set (winners ?st1 (tid t2)) \<noteq> {}"
      then obtain p where p: "p \<in> set (?W1 (tid t1))" "p \<in> set (?W1 (tid t2))" by auto
      then have "p \<in> set (winners st (tid t1))" "p \<in> set (winners st (tid t2))"
        using sub by blast+
      then obtain k where k: "(p, k) \<in> set ?keep"
        using keep_complete [OF t _ _ c] by blast
      have "tid t1 \<noteq> k \<or> tid t2 \<noteq> k" using t(3) by auto
      then show False
        using removeLosers_gone [OF k t(1), of "(winners st, False)"]
          removeLosers_gone [OF k t(2), of "(winners st, False)"] p by auto
    qed
  qed
  have w1: "\<forall>u\<in>set tops. set (winners ?st1 (tid u)) \<subseteq> set ?wp"
    by (auto simp: set_winningPlayers)
  note rf = refill_fold [OF f subset_refl c1 o1 w1]
  have cap: "withinCapacity tops (winners ?st1)" if "withinCapacity tops (winners st)"
    using that len unfolding withinCapacity_def by (simp, meson order_trans)
  have d1: "\<forall>i. distinct (winners ?st1 i)" if "\<forall>i. distinct (winners st i)"
    using that dis by simp
  have "settled bl tops st'" using rf by (simp add: settled_def)
  then show ?thesis using rf cap d1 unfolding res by blast
qed

lemma resolvePass_fixed:
  assumes c: "candidatesOnly bl (winners st)" and o: "oneTopicEach tops (winners st)"
    and s: "settled bl tops st"
  shows "resolvePass lc bl tops st = (st, False)"
proof -
  let ?keep = "keepByPlayer lc (buildPlayerWins bl (winners st) tops)"
  have "\<forall>pk\<in>set ?keep. \<forall>t\<in>set tops. fst pk \<in> set (fst (winners st, False) (tid t)) \<longrightarrow> tid t = snd pk"
  proof (intro ballI impI)
    fix pk t assume pk: "pk \<in> set ?keep" and t: "t \<in> set tops"
      and m: "fst pk \<in> set (fst (winners st, False) (tid t))"
    obtain u where u: "u \<in> set tops" "snd pk = tid u" "fst pk \<in> set (winners st (tid u))"
      using keep_sound [of "fst pk" "snd pk" lc bl "winners st" tops] pk by auto
    show "tid t = snd pk"
    proof (rule ccontr)
      assume "tid t \<noteq> snd pk"
      then have "set (winners st (tid t)) \<inter> set (winners st (tid u)) = {}"
        using o t u by (simp add: oneTopicEach_def)
      then show False using m u(3) by auto
    qed
  qed
  then have wc: "removeLosers tops ?keep (winners st, False) = (winners st, False)"
    by (rule removeLosers_id)
  have "foldl (refillTopic bl) (st, wp, False) tops = (st, wp, False)" for wp
    using s by (intro refill_fold_id) (simp add: settled_def)
  then show ?thesis by (simp add: resolvePass_def Let_def wc)
qed

section \<open>The resolution loop\<close>

lemma resolveLoop_done: "resolveLoop lc bl tops False safety st = (False, safety, st)"
  by (subst resolveLoop.simps) simp

lemma resolveLoop_pass:
  "safety < 1000 \<Longrightarrow> resolveLoop lc bl tops True safety st
     = resolveLoop lc bl tops (snd (resolvePass lc bl tops st)) (Suc safety)
         (fst (resolvePass lc bl tops st))"
  by (subst resolveLoop.simps) simp

lemma resolveLoop_ceiling:
  "\<not> safety < 1000 \<Longrightarrow> resolveLoop lc bl tops True safety st = (True, Suc safety, st)"
  by (subst resolveLoop.simps) simp

text \<open>From the state after a first pass the loop does not move.\<close>

lemma resolveLoop_rest:
  assumes "candidatesOnly bl (winners st)" "oneTopicEach tops (winners st)" "settled bl tops st"
  shows "snd (snd (resolveLoop lc bl tops ch safety st)) = st"
    and "safety < 1000 \<Longrightarrow> resolveLoop lc bl tops ch safety st
           = (False, if ch then Suc safety else safety, st)"
proof -
  have fx: "resolvePass lc bl tops st = (st, False)" using assms by (rule resolvePass_fixed)
  show "snd (snd (resolveLoop lc bl tops ch safety st)) = st"
  proof (cases ch)
    case False
    then show ?thesis by (simp add: resolveLoop_done)
  next
    case True
    show ?thesis
    proof (cases "safety < 1000")
      case True
      then show ?thesis using \<open>ch\<close> by (simp add: resolveLoop_pass fx resolveLoop_done)
    next
      case False
      then show ?thesis using \<open>ch\<close> by (simp add: resolveLoop_ceiling)
    qed
  qed
  show "resolveLoop lc bl tops ch safety st = (False, if ch then Suc safety else safety, st)"
    if "safety < 1000"
    using that by (cases ch) (simp_all add: resolveLoop_pass fx resolveLoop_done)
qed

lemma resolveLoop_first:
  assumes "candidatesOnly bl (winners st)" and "safety < 1000"
  shows "snd (snd (resolveLoop lc bl tops True safety st)) = fst (resolvePass lc bl tops st)"
  using assms resolvePass_establishes [OF assms(1), of lc tops]
  by (simp add: resolveLoop_pass resolveLoop_rest(1))

lemma resolveLoop_two:
  assumes "candidatesOnly bl (winners st)"
  shows "resolveLoop lc bl tops True 0 st
     = (False, if snd (resolvePass lc bl tops st) then 2 else 1, fst (resolvePass lc bl tops st))"
proof -
  note e = resolvePass_establishes [OF assms, of lc tops]
  have "resolveLoop lc bl tops True 0 st
      = resolveLoop lc bl tops (snd (resolvePass lc bl tops st)) (Suc 0) (fst (resolvePass lc bl tops st))"
    by (simp add: resolveLoop_pass)
  also have "\<dots> = (False, if snd (resolvePass lc bl tops st) then Suc (Suc 0) else Suc 0,
      fst (resolvePass lc bl tops st))"
    using e by (intro resolveLoop_rest(2)) simp_all
  finally show ?thesis by (simp add: numeral_2_eq_2)
qed

section \<open>The tentative winners, the bid lists and the output\<close>

lemma fold_sadd_players:
  "set (foldl (\<lambda>w c. sadd (playerId c) w) acc cs) = set acc \<union> playerId ` set cs
   \<and> length (foldl (\<lambda>w c. sadd (playerId c) w) acc cs) \<le> length acc + length cs
   \<and> (distinct acc \<longrightarrow> distinct (foldl (\<lambda>w c. sadd (playerId c) w) acc cs))"
proof (induction cs arbitrary: acc)
  case Nil
  then show ?case by simp
next
  case (Cons c cs)
  have l: "length (sadd (playerId c) acc) \<le> Suc (length acc)" by (rule length_sadd)
  show ?case
    using Cons.IH [of "sadd (playerId c) acc"] l by (auto simp: set_sadd distinct_sadd)
qed

lemma tentativeTopic_winners:
  "winners (tentativeTopic bl st t) i
     = (if i = tid t
        then foldl (\<lambda>w c. sadd (playerId c) w) (winners st (tid t))
               (take (min (capacity t) (length (bl (tid t)))) (bl (tid t)))
        else winners st i)"
  by (simp add: tentativeTopic_def)

lemma tentativeTopic_candidates:
  assumes "candidatesOnly bl (winners st)"
  shows "candidatesOnly bl (winners (tentativeTopic bl st t))"
  unfolding candidatesOnly_def
proof
  fix i
  let ?cs = "take (min (capacity t) (length (bl (tid t)))) (bl (tid t))"
  show "set (winners (tentativeTopic bl st t) i) \<subseteq> playerId ` set (bl i)"
  proof (cases "i = tid t")
    case True
    have "set ?cs \<subseteq> set (bl (tid t))" by (rule set_take_subset)
    moreover have "set (winners st (tid t)) \<subseteq> playerId ` set (bl (tid t))"
      using assms by (simp add: candidatesOnly_def)
    moreover have "set (foldl (\<lambda>w c. sadd (playerId c) w) (winners st (tid t)) ?cs)
        = set (winners st (tid t)) \<union> playerId ` set ?cs"
      using fold_sadd_players [of "winners st (tid t)" ?cs] by simp
    ultimately show ?thesis using True by (auto simp: tentativeTopic_winners)
  next
    case False
    then show ?thesis using assms by (simp add: tentativeTopic_winners candidatesOnly_def)
  qed
qed

lemma tentative_candidates: "candidatesOnly bl (winners (tentative bl tops))"
proof -
  have "candidatesOnly bl (winners (foldl (tentativeTopic bl) st us))"
    if "candidatesOnly bl (winners st)" for st us
    using that
  proof (induction us arbitrary: st)
    case Nil
    then show ?case by simp
  next
    case (Cons t us)
    have "candidatesOnly bl (winners (tentativeTopic bl st t))"
      using Cons.prems by (rule tentativeTopic_candidates)
    then show ?case using Cons.IH by simp
  qed
  from this [of "\<lparr>winners = (\<lambda>_. []), nextIndex = (\<lambda>_. 0)\<rparr>" tops]
  show ?thesis by (simp add: tentative_def candidatesOnly_def)
qed

lemma tentative_distinct: "distinct (winners (tentative bl tops) i)"
proof -
  have "\<forall>i. distinct (winners (foldl (tentativeTopic bl) st us) i)"
    if "\<forall>i. distinct (winners st i)" for st us
    using that
  proof (induction us arbitrary: st)
    case Nil
    then show ?case by simp
  next
    case (Cons t us)
    let ?cs = "take (min (capacity t) (length (bl (tid t)))) (bl (tid t))"
    have "distinct (foldl (\<lambda>w c. sadd (playerId c) w) (winners st (tid t)) ?cs)"
      using fold_sadd_players [of "winners st (tid t)" ?cs] Cons.prems by simp
    then have "\<forall>i. distinct (winners (tentativeTopic bl st t) i)"
      using Cons.prems by (simp add: tentativeTopic_winners)
    then show ?case using Cons.IH by simp
  qed
  from this [of "\<lparr>winners = (\<lambda>_. []), nextIndex = (\<lambda>_. 0)\<rparr>" tops]
  show ?thesis by (simp add: tentative_def)
qed

lemma tentative_capacity:
  assumes "distinct (map tid tops)"
  shows "withinCapacity tops (winners (tentative bl tops))"
proof -
  have "(\<forall>t\<in>set us. length (winners (foldl (tentativeTopic bl) st us) (tid t)) \<le> capacity t)
      \<and> (\<forall>i. i \<notin> tid ` set us \<longrightarrow> winners (foldl (tentativeTopic bl) st us) i = winners st i)"
    if "distinct (map tid us)" "\<forall>t\<in>set us. winners st (tid t) = []" for st us
    using that
  proof (induction us arbitrary: st)
    case Nil
    then show ?case by simp
  next
    case (Cons t us)
    let ?st1 = "tentativeTopic bl st t"
    let ?cs = "take (min (capacity t) (length (bl (tid t)))) (bl (tid t))"
    have new: "tid t \<notin> tid ` set us" and d: "distinct (map tid us)" using Cons.prems(1) by auto
    have "winners st (tid t) = []" using Cons.prems(2) by simp
    then have "length (winners ?st1 (tid t)) \<le> length ?cs"
      using fold_sadd_players [of "[]" ?cs] by (simp add: tentativeTopic_winners)
    then have head: "length (winners ?st1 (tid t)) \<le> capacity t" by simp
    have other: "winners ?st1 i = winners st i" if "i \<noteq> tid t" for i
      using that by (simp add: tentativeTopic_winners)
    have e: "\<forall>u\<in>set us. winners ?st1 (tid u) = []"
    proof
      fix u assume u: "u \<in> set us"
      then have "tid u \<in> tid ` set us" by (rule imageI)
      then have "tid u \<noteq> tid t" using new by metis
      then show "winners ?st1 (tid u) = []" using other Cons.prems(2) u by simp
    qed
    note ih = Cons.IH [OF d e]
    have keep: "winners (foldl (tentativeTopic bl) ?st1 us) (tid t) = winners ?st1 (tid t)"
      using ih new by simp
    have a: "\<forall>u\<in>set (t # us). length (winners (foldl (tentativeTopic bl) st (t # us)) (tid u)) \<le> capacity u"
      using ih keep head by simp
    have b: "\<forall>i. i \<notin> tid ` set (t # us) \<longrightarrow> winners (foldl (tentativeTopic bl) st (t # us)) i = winners st i"
      using ih other by simp
    show ?case using a b by blast
  qed
  from this [of tops "\<lparr>winners = (\<lambda>_. []), nextIndex = (\<lambda>_. 0)\<rparr>"] assms
  show ?thesis by (simp add: tentative_def withinCapacity_def)
qed

lemma fold_fun_upd:
  "foldl (\<lambda>m t. m(tid t := F (tid t))) m0 us i = (if i \<in> tid ` set us then F i else m0 i)"
  by (induction us arbitrary: m0) auto

lemma buildBidLists_at:
  "buildBidLists lc room i
     = (if i \<in> tid ` set (topics room) then js_sort (candCmp lc) (candidates (bids room) i) else [])"
  unfolding buildBidLists_def by (rule fold_fun_upd)

lemma positive_floor:
  "x \<noteq> NaN \<Longrightarrow> \<not> js_le (js_max (Fin 0) (js_floor x)) (Fin 0) \<Longrightarrow> js_lt (Fin 0) (js_floor x)"
  by (cases x) (auto simp: js_max_def split: if_splits)

lemma candidate_bid:
  assumes "c \<in> set (candidates bs i)"
  shows "\<exists>pt b. (playerId c, pt) \<in> set bs \<and> map_of pt i = Some b
     \<and> \<not> js_le (js_max (Fin 0) (js_floor (amount b))) (Fin 0)"
proof -
  from assms obtain pb where pb: "pb \<in> set bs" "c \<in> set (candOf i pb)"
    by (auto simp: candidates_def)
  show ?thesis
  proof (cases "map_of (snd pb) i")
    case None
    then show ?thesis using pb(2) by (simp add: candOf_def)
  next
    case (Some b)
    then have "\<not> js_le (js_max (Fin 0) (js_floor (amount b))) (Fin 0)" "playerId c = fst pb"
      using pb(2) by (auto simp: candOf_def split: if_splits)
    then show ?thesis using pb(1) Some by (intro exI [of _ "snd pb"] exI [of _ b]) simp
  qed
qed

lemma winnersByTopic_at:
  "map_of (winnersByTopic (buildResult w tops)) i = (if i \<in> tid ` set tops then Some (w i) else None)"
proof -
  have "map_of (foldl (\<lambda>r t. AList.update (tid t) (w (tid t)) r) r0 us) i
      = (if i \<in> tid ` set us then Some (w i) else map_of r0 i)" for r0 us
    by (induction us arbitrary: r0) (auto simp: update_conv')
  from this [of "[]" tops] show ?thesis by (simp add: buildResult_def)
qed


section \<open>Termination of the resolution loop\<close>

text \<open>
  Claim C5. For every room the resolution loop leaves with \<open>changed = false\<close> and with
  its counter, the number of passes it ran, at most 2, so the ceiling of 1000 is never what
  ends it. The state it returns is the state after the first pass; in that state no player
  is in the winner sets of two topic ids (the refill admits only players that win nothing)
  and every topic is full or has used up its candidates; and a further pass changes nothing
  in it: it is a fixed point.
\<close>

theorem resolution_settles_in_two_passes:
  "fst (finalAlloc lc room) = False
   \<and> fst (snd (finalAlloc lc room)) \<le> 2
   \<and> snd (snd (finalAlloc lc room))
        = fst (resolvePass lc (buildBidLists lc room) (topics room)
                 (tentative (buildBidLists lc room) (topics room)))
   \<and> oneTopicEach (topics room) (winners (snd (snd (finalAlloc lc room))))
   \<and> settled (buildBidLists lc room) (topics room) (snd (snd (finalAlloc lc room)))
   \<and> resolvePass lc (buildBidLists lc room) (topics room) (snd (snd (finalAlloc lc room)))
        = (snd (snd (finalAlloc lc room)), False)"
proof -
  let ?bl = "buildBidLists lc room"
  let ?st0 = "tentative ?bl (topics room)"
  have c: "candidatesOnly ?bl (winners ?st0)" by (rule tentative_candidates)
  note e = resolvePass_establishes [OF c, of lc "topics room"]
  have f: "finalAlloc lc room
      = (False, if snd (resolvePass lc ?bl (topics room) ?st0) then 2 else 1,
         fst (resolvePass lc ?bl (topics room) ?st0))"
    unfolding finalAlloc_def using c by (rule resolveLoop_two)
  have fx: "resolvePass lc ?bl (topics room) (fst (resolvePass lc ?bl (topics room) ?st0))
      = (fst (resolvePass lc ?bl (topics room) ?st0), False)"
    using e by (intro resolvePass_fixed) simp_all
  show ?thesis using e fx by (simp add: f)
qed

theorem resolution_settles_in_two_passes_witness:
  "fst (finalAlloc unitCompare auctionRoom) = False
   \<and> fst (snd (finalAlloc unitCompare auctionRoom)) = 2
   \<and> set (winners (snd (snd (finalAlloc unitCompare auctionRoom))) ''A'')
       \<inter> set (winners (snd (snd (finalAlloc unitCompare auctionRoom))) ''B'') = {}"
proof -
  note T = resolution_settles_in_two_passes [of unitCompare auctionRoom]
  have n: "fst (snd (finalAlloc unitCompare auctionRoom)) = 2" by code_simp
  have t: "topics auctionRoom = [\<lparr>tid = ''A'', tname = ''Topic A'', capacity = 1\<rparr>,
                 \<lparr>tid = ''B'', tname = ''Topic B'', capacity = 1\<rparr>]"
    by (simp add: auctionRoom_def newRoom_def)
  have a: "fst (finalAlloc unitCompare auctionRoom) = False" using T by (rule conjunct1)
  have "oneTopicEach (topics auctionRoom) (winners (snd (snd (finalAlloc unitCompare auctionRoom))))"
    using T by (elim conjE)
  then have "set (winners (snd (snd (finalAlloc unitCompare auctionRoom))) ''A'')
       \<inter> set (winners (snd (snd (finalAlloc unitCompare auctionRoom))) ''B'') = {}"
    unfolding oneTopicEach_def t by simp
  then show ?thesis using a n by simp
qed

section \<open>The winners\<close>

text \<open>
  Claim C1, amended. For every room and every collation, no player is in the winner sets
  of two topic ids. When the topics have pairwise distinct ids, the winner set of every
  topic has no repetition and at most \<open>capacity\<close> members. When every bid amount is a
  number (none is NaN), every winner of a topic placed a bid on it whose floored amount is
  greater than 0. A loop that the ceiling ends returns the same winners: started with any
  counter below 1000 (with 999 the ceiling allows one pass only) the loop ends in the state
  that \<open>computeWinners\<close> reports.
\<close>

theorem winners_guarantee:
  "(\<forall>i j wi wj. map_of (winnersByTopic (computeWinners lc room)) i = Some wi
            \<and> map_of (winnersByTopic (computeWinners lc room)) j = Some wj \<and> i \<noteq> j
          \<longrightarrow> set wi \<inter> set wj = {})
     \<and> (distinct (map tid (topics room)) \<longrightarrow>
          (\<forall>t\<in>set (topics room). \<exists>ws.
              map_of (winnersByTopic (computeWinners lc room)) (tid t) = Some ws
                \<and> distinct ws \<and> length ws \<le> capacity t))
     \<and> ((\<forall>pb\<in>set (bids room). \<forall>kb\<in>set (snd pb). amount (snd kb) \<noteq> NaN) \<longrightarrow>
          (\<forall>i ws p. map_of (winnersByTopic (computeWinners lc room)) i = Some ws \<and> p \<in> set ws
            \<longrightarrow> (\<exists>perTopic b. (p, perTopic) \<in> set (bids room) \<and> map_of perTopic i = Some b
                   \<and> js_lt (Fin 0) (js_floor (amount b)))))
     \<and> (\<forall>safety<1000. buildResult
            (winners (snd (snd (resolveLoop lc (buildBidLists lc room) (topics room) True safety
                                  (tentative (buildBidLists lc room) (topics room))))))
            (topics room) = computeWinners lc room)"
proof -
  let ?bl = "buildBidLists lc room"
  let ?tops = "topics room"
  let ?init = "tentative ?bl ?tops"
  let ?st = "fst (resolvePass lc ?bl ?tops ?init)"
  have c0: "candidatesOnly ?bl (winners ?init)" by (rule tentative_candidates)
  have d0: "\<forall>i. distinct (winners ?init i)" by (simp add: tentative_distinct)
  note e = resolvePass_establishes [OF c0, of lc ?tops]
  have c: "candidatesOnly ?bl (winners ?st)" using e by simp
  have o: "oneTopicEach ?tops (winners ?st)" using e by simp
  have d: "\<forall>i. distinct (winners ?st i)" using e d0 by simp
  have loop: "snd (snd (resolveLoop lc ?bl ?tops True safety ?init)) = ?st" if "safety < 1000" for safety
    using c0 that by (rule resolveLoop_first)
  have cw: "computeWinners lc room = buildResult (winners ?st) ?tops"
    using loop [of 0] by (simp add: computeWinners_def finalAlloc_def)
  have at: "map_of (winnersByTopic (computeWinners lc room)) i
      = (if i \<in> tid ` set ?tops then Some (winners ?st i) else None)" for i
    by (simp add: cw winnersByTopic_at)
  have 1: "set wi \<inter> set wj = {}"
    if "map_of (winnersByTopic (computeWinners lc room)) i = Some wi"
      "map_of (winnersByTopic (computeWinners lc room)) j = Some wj" "i \<noteq> j" for i j wi wj
  proof -
    from that(1) obtain t1 where t1: "t1 \<in> set ?tops" "i = tid t1" "wi = winners ?st i"
      unfolding at by (auto split: if_splits)
    from that(2) obtain t2 where t2: "t2 \<in> set ?tops" "j = tid t2" "wj = winners ?st j"
      unfolding at by (auto split: if_splits)
    show ?thesis using o t1 t2 that(3) by (simp add: oneTopicEach_def)
  qed
  have 2: "\<exists>ws. map_of (winnersByTopic (computeWinners lc room)) (tid t) = Some ws
            \<and> distinct ws \<and> length ws \<le> capacity t"
    if ids: "distinct (map tid ?tops)" and t: "t \<in> set ?tops" for t
  proof -
    have "withinCapacity ?tops (winners ?init)" using ids by (rule tentative_capacity)
    then have "withinCapacity ?tops (winners ?st)" using e ids by simp
    then show ?thesis using t d by (simp add: at withinCapacity_def)
  qed
  have 3: "\<exists>perTopic b. (p, perTopic) \<in> set (bids room) \<and> map_of perTopic i = Some b
                 \<and> js_lt (Fin 0) (js_floor (amount b))"
    if num: "\<forall>pb\<in>set (bids room). \<forall>kb\<in>set (snd pb). amount (snd kb) \<noteq> NaN"
      and w: "map_of (winnersByTopic (computeWinners lc room)) i = Some ws" "p \<in> set ws" for i ws p
  proof -
    from w(1) have i: "i \<in> tid ` set ?tops" and ws: "ws = winners ?st i"
      unfolding at by (auto split: if_splits)
    have "p \<in> playerId ` set (?bl i)" using c w(2) ws by (auto simp: candidatesOnly_def)
    then obtain cd where cd: "cd \<in> set (candidates (bids room) i)" "playerId cd = p"
      using i by (auto simp: buildBidLists_at set_js_sort)
    then obtain pt b where b: "(p, pt) \<in> set (bids room)" "map_of pt i = Some b"
      "\<not> js_le (js_max (Fin 0) (js_floor (amount b))) (Fin 0)"
      using candidate_bid [OF cd(1)] by auto
    have "(i, b) \<in> set pt" using b(2) by (rule map_of_SomeD)
    then have "amount b \<noteq> NaN" using num b(1) by force
    then have "js_lt (Fin 0) (js_floor (amount b))" using b(3) by (rule positive_floor)
    then show ?thesis using b by blast
  qed
  have 4: "\<forall>safety<1000. buildResult
            (winners (snd (snd (resolveLoop lc ?bl ?tops True safety ?init)))) ?tops
          = computeWinners lc room"
    using loop by (simp add: cw)
  show ?thesis using 1 2 3 4 by blast
qed

theorem winners_guarantee_witness:
  "(\<exists>ws. map_of (winnersByTopic (computeWinners unitCompare tieRoom)) ''B'' = Some ws
        \<and> distinct ws \<and> length ws \<le> 2)
   \<and> (\<exists>perTopic b. (''p3'', perTopic) \<in> set (bids tieRoom)
        \<and> map_of perTopic ''B'' = Some b \<and> js_lt (Fin 0) (js_floor (amount b)))
   \<and> computeWinners unitCompare tieRoom
        = \<lparr>winnersByTopic = [(''A'', [''p1'']), (''B'', [''p3''])],
           assignmentByPlayer = [(''p1'', ''A''), (''p3'', ''B'')]\<rparr>"
proof -
  have t: "topics tieRoom = [\<lparr>tid = ''A'', tname = ''Topic A'', capacity = 1\<rparr>,
                 \<lparr>tid = ''B'', tname = ''Topic B'', capacity = 2\<rparr>]"
    by (simp add: tieRoom_def newRoom_def)
  have h1: "distinct (map tid (topics tieRoom))" by (simp add: t)
  have h2: "\<forall>pb\<in>set (bids tieRoom). \<forall>kb\<in>set (snd pb). amount (snd kb) \<noteq> NaN"
    by (simp add: tieRoom_def newRoom_def)
  have r: "computeWinners unitCompare tieRoom
        = \<lparr>winnersByTopic = [(''A'', [''p1'']), (''B'', [''p3''])],
           assignmentByPlayer = [(''p1'', ''A''), (''p3'', ''B'')]\<rparr>"
    by code_simp
  have rB: "map_of (winnersByTopic (computeWinners unitCompare tieRoom)) ''B'' = Some [''p3'']"
    by (simp add: r)
  note T = winners_guarantee [of unitCompare tieRoom]
  have pos: "\<forall>i ws p. map_of (winnersByTopic (computeWinners unitCompare tieRoom)) i = Some ws
        \<and> p \<in> set ws
      \<longrightarrow> (\<exists>perTopic b. (p, perTopic) \<in> set (bids tieRoom) \<and> map_of perTopic i = Some b
             \<and> js_lt (Fin 0) (js_floor (amount b)))"
    using T h2 by blast
  have p: "\<exists>perTopic b. (''p3'', perTopic) \<in> set (bids tieRoom)
      \<and> map_of perTopic ''B'' = Some b \<and> js_lt (Fin 0) (js_floor (amount b))"
    using pos [rule_format, of "''B''" "[''p3'']" "''p3''"] rB by simp
  have "\<forall>t\<in>set (topics tieRoom). \<exists>ws.
      map_of (winnersByTopic (computeWinners unitCompare tieRoom)) (tid t) = Some ws
        \<and> distinct ws \<and> length ws \<le> capacity t"
    using T h1 by blast
  then have a: "\<exists>ws. map_of (winnersByTopic (computeWinners unitCompare tieRoom)) ''B'' = Some ws
        \<and> distinct ws \<and> length ws \<le> 2"
    unfolding t by simp
  show ?thesis using a p r by blast
qed

theorem winners_guarantee_counterexample:
  "map_of (winnersByTopic (computeWinners unitCompare dupRoom)) ''A'' = Some [''p'', ''q'']
   \<and> \<not> (\<forall>t\<in>set (topics dupRoom). \<forall>ws.
          map_of (winnersByTopic (computeWinners unitCompare dupRoom)) (tid t) = Some ws
            \<longrightarrow> length ws \<le> capacity t)
   \<and> map_of (winnersByTopic (computeWinners unitCompare nanRoom)) ''A'' = Some [''p'']
   \<and> map_of (bids nanRoom) ''p'' = Some [(''A'', \<lparr>amount = NaN, ts = 1000\<rparr>)]
   \<and> \<not> js_lt (Fin 0) (js_floor NaN)"
proof -
  have r: "computeWinners unitCompare dupRoom
      = \<lparr>winnersByTopic = [(''A'', [''p'', ''q''])],
         assignmentByPlayer = [(''p'', ''A''), (''q'', ''A'')]\<rparr>"
    by code_simp
  have n: "computeWinners unitCompare nanRoom
      = \<lparr>winnersByTopic = [(''A'', [''p''])], assignmentByPlayer = [(''p'', ''A'')]\<rparr>"
    by code_simp
  have t: "topics dupRoom = [\<lparr>tid = ''A'', tname = ''Topic'', capacity = 1\<rparr>,
                 \<lparr>tid = ''A'', tname = ''Topic'', capacity = 2\<rparr>]"
    by (simp add: dupRoom_def newRoom_def)
  have b: "map_of (bids nanRoom) ''p'' = Some [(''A'', \<lparr>amount = NaN, ts = 1000\<rparr>)]"
    by (simp add: nanRoom_def newRoom_def)
  show ?thesis by (simp add: r n t b)
qed

section \<open>Placing a bid\<close>

text \<open>
  What the \<open>bid\<close> handler writes. For an amount that is a finite number it is
  \<open>max(0, floor(amount))\<close>, and 0 for an amount that is missing; the bid replaces the bid
  of the issuer on the topic and carries the clock reading \<open>k\<close>; the clamp of the issuer
  follows, and the room is broadcast.
\<close>

lemma bidAmount_finite: "bidAmount (Some (Fin q)) = Fin (of_int (max 0 \<lfloor>q\<rfloor>))"
proof (cases "0 < \<lfloor>q\<rfloor>")
  case True
  then have "max 0 \<lfloor>q\<rfloor> = \<lfloor>q\<rfloor>" by linarith
  then show ?thesis using True by (simp add: bidAmount_def js_max_def)
next
  case False
  then have "max 0 \<lfloor>q\<rfloor> = 0" by linarith
  then show ?thesis using False by (simp add: bidAmount_def js_max_def)
qed

lemma bidAmount_missing: "bidAmount None = Fin 0"
  by (simp add: bidAmount_def js_max_def)

lemma bid_writes:
  assumes "\<not> locked room" and "t \<in> tid ` set (topics room)"
    and "old = (case map_of (bids room) pid of None \<Rightarrow> [] | Some perTopic \<Rightarrow> perTopic)"
    and "written = room\<lparr>bids := AList.update pid
            (AList.update t \<lparr>amount = bidAmount a, ts = clk k\<rparr> old) (bids room)\<rparr>"
  shows "handleInRoom lc clk k pid (Bid t a) room
       = (fst (clampBidsToBudget clk (Suc k) written pid),
          [RoomUpdate (fst (clampBidsToBudget clk (Suc k) written pid))],
          snd (clampBidsToBudget clk (Suc k) written pid))"
    and "map_of (bids written) pid = Some (AList.update t \<lparr>amount = bidAmount a, ts = clk k\<rparr> old)"
    and "map_of (AList.update t \<lparr>amount = bidAmount a, ts = clk k\<rparr> old) t
       = Some \<lparr>amount = bidAmount a, ts = clk k\<rparr>"
    and "map fst (AList.update t \<lparr>amount = bidAmount a, ts = clk k\<rparr> old)
       = (if t \<in> fst ` set old then map fst old else map fst old @ [t])"
  using assms
  by (simp_all add: handleInRoom_def placeBid_def update_conv' update_keys case_prod_beta)

text \<open>
  Claim C7. The amount stored by an accepted \<open>bid\<close> is meant to be a whole number that is
  not negative, for every value of the amount supplied. For a value that is not a finite
  number it is not. A player joins, sets a topic \<open>A\<close> and bids \<open>"abc"\<close> on it: \<open>Number\<close>
  makes NaN of the amount, \<open>Math.floor\<close> and \<open>Math.max\<close> pass NaN on, NaN is written
  and the clamp keeps it. For the amount \<open>1e999\<close>, which JSON reads as \<open>+Infinity\<close>,
  \<open>+Infinity\<close> is written and the clamp makes NaN of it. In both runs the amount stored
  for \<open>A\<close> is NaN.
\<close>

theorem bid_amount_nan:
  "(bidAmount (Some NaN), isNonNegInt (bidAmount (Some NaN)),
    map (\<lambda>kr. map (\<lambda>tb. (fst tb, amount (snd tb), isNonNegInt (amount (snd tb))))
                 (case map_of (bids (snd kr)) ''p'' of None \<Rightarrow> [] | Some perTopic \<Rightarrow> perTopic))
      nanBidRun,
    bidAmount (Some PInf), isNonNegInt (bidAmount (Some PInf)),
    map (\<lambda>kr. map (\<lambda>tb. (fst tb, amount (snd tb), isNonNegInt (amount (snd tb))))
                 (case map_of (bids (snd kr)) ''p'' of None \<Rightarrow> [] | Some perTopic \<Rightarrow> perTopic))
      infBidRun)
   = (NaN, False, [[(''A'', NaN, False)]], PInf, False, [[(''A'', NaN, False)]])"
  unfolding nanBidRun_def infBidRun_def by code_simp

section \<open>The budget invariant and the clamp applied twice\<close>

text \<open>
  Claim C2. After every event the bids of every participant are meant to sum to at most
  the budget, with no negative amount. A \<open>bid\<close> whose amount is not numeric breaks this:
  a player joins, sets a topic \<open>A\<close> and bids \<open>"abc"\<close> on it. \<open>Number\<close> makes NaN of the
  amount, \<open>Math.floor\<close> and \<open>Math.max\<close> pass it on, the clamp reads a total of NaN, for
  which \<open>total <= budget\<close> is false, and writes NaN back. The stored amount and the
  spent value are NaN: neither is at most the budget, and \<open>0 <= NaN\<close> is false.
\<close>

theorem nan_bid_breaks_budget:
  "map (\<lambda>kr. (map_of (bids (snd kr)) ''p'', spentOf (snd kr) ''p'',
              js_le (spentOf (snd kr) ''p'') (budget (config (snd kr))), js_le (Fin 0) NaN))
       nanBidRun
     = [(Some [(''A'', \<lparr>amount = NaN, ts = 1001\<rparr>)], NaN, False, False)]"
  unfolding nanBidRun_def by code_simp

text \<open>
  Amounts of \<open>2^53\<close> and more break the invariant in a second way, by rounding. With the
  budget 100 a player bids 1 on \<open>A\<close> and \<open>2^53\<close> on \<open>B\<close>: the total \<open>1 + 2^53\<close> is
  rounded to \<open>2^53\<close>, the overage is 1 short, and the clamp leaves \<open>{A: 0, B: 101}\<close>.
\<close>

lemma huge_bid_breaks_budget:
  "map (\<lambda>kr. (budget (config (snd kr)), map_of (bids (snd kr)) ''p'', spentOf (snd kr) ''p'',
              js_le (spentOf (snd kr) ''p'') (budget (config (snd kr)))))
       hugeBidRun
     = [(Fin 100, Some [(''A'', \<lparr>amount = Fin 0, ts = 1002\<rparr>), (''B'', \<lparr>amount = Fin 101, ts = 1003\<rparr>)],
         Fin 101, False)]"
  unfolding hugeBidRun_def by code_simp

text \<open>
  The clamp of a bid map whose total is within the budget: the bids stay, no clock reading
  is taken, and a second clamp changes nothing.
\<close>

lemma recomputeSpent_idem: "recomputeSpent (recomputeSpent room p) p = recomputeSpent room p"
proof -
  have "AList.map_entry p (\<lambda>pl. pl\<lparr>spent := s\<rparr>) (AList.map_entry p (\<lambda>pl. pl\<lparr>spent := s\<rparr>) al)
      = AList.map_entry p (\<lambda>pl. pl\<lparr>spent := s\<rparr>) al" for s and al :: "(string \<times> player) list"
    by (induction al) auto
  then show ?thesis by (simp add: recomputeSpent_def spentOf_def)
qed

lemma clamp_within:
  assumes "map_of (bids room) p = Some perTopic"
    and "js_le (totalOf (toEntries perTopic)) (budget (config room))"
  shows "clampBidsToBudget clk k room p = (recomputeSpent room p, k)"
    and "bids (fst (clampBidsToBudget clk k room p)) = bids room"
    and "clampBidsToBudget clk k (fst (clampBidsToBudget clk k room p)) p
       = clampBidsToBudget clk k room p"
proof -
  show c: "clampBidsToBudget clk k room p = (recomputeSpent room p, k)"
    using assms by (simp add: clampBidsToBudget_def Let_def)
  show "bids (fst (clampBidsToBudget clk k room p)) = bids room"
    by (simp add: c bids_recomputeSpent)
  have "clampBidsToBudget clk k (recomputeSpent room p) p
      = (recomputeSpent (recomputeSpent room p) p, k)"
    using assms by (simp add: clampBidsToBudget_def Let_def recomputeSpent_def)
  then show "clampBidsToBudget clk k (fst (clampBidsToBudget clk k room p)) p
       = clampBidsToBudget clk k room p"
    by (simp add: c recomputeSpent_idem)
qed

text \<open>
  Claim C8. The clamp applied twice is meant to give the bid map of the clamp applied once.
  In a room whose budget is NaN it does not: a player bids 5 on a topic and then, as host,
  sets the budget \<open>"abc"\<close>. Every later clamp finds \<open>total <= budget\<close> false and writes
  the bids back with new timestamps, so the clamp at one clock reading and the clamp
  repeated at the next leave different bid maps.
\<close>

theorem nan_clamp_not_idempotent:
  "map (\<lambda>kr. (budget (config (snd kr)),
              map_of (bids (fst (clampBidsToBudget tick 10 (snd kr) ''p''))) ''p'',
              map_of (bids (fst (clampBidsToBudget tick 11
                (fst (clampBidsToBudget tick 10 (snd kr) ''p'')) ''p''))) ''p''))
       nanClampRun
     = [(NaN, Some [(''A'', \<lparr>amount = NaN, ts = 1010\<rparr>)],
              Some [(''A'', \<lparr>amount = NaN, ts = 1011\<rparr>)])]"
  unfolding nanClampRun_def by code_simp

text \<open>
  Rounding breaks it too: in the room left by the bids 1 and \<open>2^53\<close> the first clamp has
  left \<open>{A: 0, B: 101}\<close>, above the budget 100, and the next clamp takes 1 more from \<open>B\<close>.
\<close>

lemma huge_clamp_not_idempotent:
  "map (\<lambda>kr. map_of (bids (fst (clampBidsToBudget tick 10 (snd kr) ''p''))) ''p'') hugeBidRun
     = [Some [(''A'', \<lparr>amount = Fin 0, ts = 1010\<rparr>), (''B'', \<lparr>amount = Fin 100, ts = 1011\<rparr>)]]"
  unfolding hugeBidRun_def by code_simp

end
